theory Spec2Isabelle
  imports Main "HOL-Library.Word"
begin

unbundle bit_operations_syntax

section \<open>DAMON primitives for the physical address space (mm/damon/paddr.c)\<close>

text \<open>
  The development embeds \<^verbatim>\<open>mm/damon/paddr.c\<close> of a 64-bit kernel: \<^verbatim>\<open>unsigned long\<close> is a
  64-bit word and \<^verbatim>\<open>unsigned int\<close> a 32-bit word, both with wrap-around arithmetic.
\<close>

type_synonym ulong = "64 word"
type_synonym uint = "32 word"

subsection \<open>What the file takes from the rest of the kernel\<close>

text \<open>
  Macros and functions that \<^verbatim>\<open>paddr.c\<close> uses but does not define are parameters of the
  model: \<^verbatim>\<open>hash_long\<close> (linux/hash.h), \<^verbatim>\<open>PAGE_SHIFT\<close> and \<^verbatim>\<open>HPAGE_PMD_SHIFT\<close> (the
  architecture), whether \<^verbatim>\<open>CONFIG_TRANSPARENT_HUGEPAGE\<close> is set, \<^verbatim>\<open>damon_rand\<close> (a
  pseudo-random address of a range, threading the generator's state) and
  \<^verbatim>\<open>reclaim_pages\<close> (the number of pages of the list it reclaimed).
\<close>

record platform =
  hash_long :: "ulong \<Rightarrow> nat \<Rightarrow> ulong"
  PAGE_SHIFT :: nat
  HPAGE_PMD_SHIFT :: nat
  CONFIG_TRANSPARENT_HUGEPAGE :: bool
  damon_rand :: "nat \<Rightarrow> ulong \<Rightarrow> ulong \<Rightarrow> ulong \<times> nat"
  reclaim_pages :: "ulong list \<Rightarrow> ulong"

definition PAGE_SIZE :: "platform \<Rightarrow> ulong" where
  "PAGE_SIZE pf = push_bit (PAGE_SHIFT pf) 1"

definition PHYS_PFN :: "platform \<Rightarrow> ulong \<Rightarrow> ulong" where
  "PHYS_PFN pf x = drop_bit (PAGE_SHIFT pf) x"

text \<open>
  The page subsystem is seen through the answers it gives for one page: the flags that
  \<^verbatim>\<open>page_mapped\<close>, \<^verbatim>\<open>page_rmapping\<close>, \<^verbatim>\<open>page_is_idle\<close>, \<^verbatim>\<open>PageAnon\<close>, \<^verbatim>\<open>PageKsm\<close>,
  \<^verbatim>\<open>PageUnevictable\<close> read, whether \<^verbatim>\<open>trylock_page\<close> and \<^verbatim>\<open>isolate_lru_page\<close> succeed, and
  what the reverse-map walk finds: for every mapping VMA, in the order \<^verbatim>\<open>rmap_walk\<close> visits
  them, the entries that \<^verbatim>\<open>page_vma_mapped_walk\<close> yields. An entry is a PTE or a PMD and
  carries its young bit and the answer of \<^verbatim>\<open>mmu_notifier_test_young\<close>.
  \<^verbatim>\<open>damon_get_page\<close> is the partial map \<open>pages\<close> of the state below.
\<close>

datatype pvmw = PTE (pte_young: bool) (pte_notifier_young: bool)
  | PMD (pmd_young: bool) (pmd_notifier_young: bool)

record page =
  pg_mapped :: bool
  pg_rmapping :: bool
  pg_idle :: bool
  pg_anon :: bool
  pg_ksm :: bool
  pg_trylock :: bool
  pg_isolate_ok :: bool
  pg_unevictable :: bool
  pg_vmas :: "pvmw list list"

subsection \<open>The regions, the cache and the state\<close>

record damon_region =
  ar_start :: ulong
  ar_end :: ulong
  sampling_addr :: ulong
  nr_accesses :: uint

datatype damos_action = DAMOS_WILLNEED | DAMOS_COLD | DAMOS_PAGEOUT | DAMOS_HUGEPAGE
  | DAMOS_NOHUGEPAGE | DAMOS_STAT

record damon_pa_cache_ent =
  gen :: ulong
  pfn :: ulong
  page_sz :: ulong
  accessed :: bool
  mkold_done :: bool

text \<open>
  The calls that leave the file are recorded in order, so that they can be counted. \<open>Mkold\<close> and
  \<open>Young\<close> are the calls of \<^verbatim>\<open>damon_pa_mkold\<close> and \<^verbatim>\<open>damon_pa_young\<close> with their address; the
  others are the kernel calls of \<^verbatim>\<open>damon_pa_apply_scheme\<close> with the frame number of their
  page.
\<close>

datatype event = Mkold ulong | Young ulong
  | GetPage ulong | ClearPageReferenced ulong | TestAndClearPageYoung ulong
  | IsolateLruPage ulong | PutPage ulong | PutbackLruPage ulong | ListAdd ulong
  | ReclaimPages "ulong list" | CondResched

text \<open>
  \<open>damon_pa_cache\<close> is the static array of \<^verbatim>\<open>DAMON_PA_CACHE_SIZE\<close> entries, a store from
  the index to the entry (every index the code computes is masked into the array).
\<close>

record kstate =
  damon_pa_cache :: "nat \<Rightarrow> damon_pa_cache_ent"
  damon_pa_cache_gen :: ulong
  pages :: "ulong \<Rightarrow> page option"
  rng :: nat
  trace :: "event list"

definition DAMON_PA_CACHE_BITS :: nat where
  "DAMON_PA_CACHE_BITS = 8"

definition DAMON_PA_CACHE_SIZE :: ulong where
  "DAMON_PA_CACHE_SIZE = push_bit DAMON_PA_CACHE_BITS 1"

definition DAMON_PA_CACHE_PROBES :: nat where
  "DAMON_PA_CACHE_PROBES = 4"

text \<open>Static storage is zero-initialised.\<close>

definition zero_ent :: damon_pa_cache_ent where
  "zero_ent = \<lparr>gen = 0, pfn = 0, page_sz = 0, accessed = False, mkold_done = False\<rparr>"

definition boot_state :: "(ulong \<Rightarrow> page option) \<Rightarrow> nat \<Rightarrow> kstate" where
  "boot_state pgs seed =
     \<lparr>damon_pa_cache = (\<lambda>_. zero_ent), damon_pa_cache_gen = 0, pages = pgs, rng = seed,
      trace = []\<rparr>"

subsection \<open>The round cache\<close>

text \<open>The index \<^verbatim>\<open>(idx + i) & (DAMON_PA_CACHE_SIZE - 1)\<close> of the \<open>i\<close>-th probe.\<close>

definition probe_index :: "platform \<Rightarrow> ulong \<Rightarrow> nat \<Rightarrow> nat" where
  "probe_index pf p i =
     unat ((hash_long pf p DAMON_PA_CACHE_BITS + of_nat i) AND (DAMON_PA_CACHE_SIZE - 1))"

text \<open>
  The loop of \<^verbatim>\<open>damon_pa_cache_lookup\<close> over the probes still to try; the result is the
  index of the entry the C function returns a pointer to, \<open>None\<close> for \<^verbatim>\<open>NULL\<close>.
\<close>

fun lookup_probes :: "platform \<Rightarrow> kstate \<Rightarrow> ulong \<Rightarrow> nat list \<Rightarrow> nat option" where
  "lookup_probes pf s p [] = None"
| "lookup_probes pf s p (i # is) =
     (let e = damon_pa_cache s (probe_index pf p i) in
      if gen e \<noteq> damon_pa_cache_gen s then lookup_probes pf s p is
      else if pfn e = p then Some (probe_index pf p i)
      else lookup_probes pf s p is)"

definition damon_pa_cache_lookup :: "platform \<Rightarrow> kstate \<Rightarrow> ulong \<Rightarrow> nat option" where
  "damon_pa_cache_lookup pf s p = lookup_probes pf s p [0..<DAMON_PA_CACHE_PROBES]"

fun get_slot_probes :: "platform \<Rightarrow> kstate \<Rightarrow> ulong \<Rightarrow> nat list \<Rightarrow> nat" where
  "get_slot_probes pf s p [] =
     unat (hash_long pf p DAMON_PA_CACHE_BITS AND (DAMON_PA_CACHE_SIZE - 1))"
| "get_slot_probes pf s p (i # is) =
     (let e = damon_pa_cache s (probe_index pf p i) in
      if gen e \<noteq> damon_pa_cache_gen s then probe_index pf p i
      else get_slot_probes pf s p is)"

definition damon_pa_cache_get_slot :: "platform \<Rightarrow> kstate \<Rightarrow> ulong \<Rightarrow> nat" where
  "damon_pa_cache_get_slot pf s p = get_slot_probes pf s p [0..<DAMON_PA_CACHE_PROBES]"

definition damon_pa_cache_round_begin :: "kstate \<Rightarrow> kstate" where
  "damon_pa_cache_round_begin s =
     (let g = damon_pa_cache_gen s + 1 in
      s\<lparr>damon_pa_cache_gen := (if g = 0 then 1 else g)\<rparr>)"

text \<open>An entry is live when its generation is the current one.\<close>

definition live :: "kstate \<Rightarrow> nat \<Rightarrow> bool" where
  "live s i \<longleftrightarrow> gen (damon_pa_cache s i) = damon_pa_cache_gen s"

subsection \<open>The frame access oracle: \<^verbatim>\<open>damon_pa_mkold\<close> and \<^verbatim>\<open>damon_pa_young\<close>\<close>

text \<open>
  \<^verbatim>\<open>__damon_pa_young\<close>, the \<^verbatim>\<open>rmap_one\<close> callback, on the entries of one VMA. The pair is
  \<^verbatim>\<open>result->accessed\<close> and \<^verbatim>\<open>result->page_sz\<close>; the loop stops at the first entry that
  leaves \<open>accessed\<close> set. Without \<^verbatim>\<open>CONFIG_TRANSPARENT_HUGEPAGE\<close> a PMD entry only warns.
\<close>

fun young_entries :: "platform \<Rightarrow> page \<Rightarrow> bool \<times> ulong \<Rightarrow> pvmw list \<Rightarrow> bool \<times> ulong" where
  "young_entries pf pg res [] = res"
| "young_entries pf pg res (e # es) =
     (let res' =
        (case e of
           PTE y n \<Rightarrow> (y \<or> \<not> pg_idle pg \<or> n, snd res)
         | PMD y n \<Rightarrow>
             if CONFIG_TRANSPARENT_HUGEPAGE pf
             then (y \<or> \<not> pg_idle pg \<or> n, push_bit (HPAGE_PMD_SHIFT pf) 1)
             else res)
      in if fst res' then res' else young_entries pf pg res' es)"

definition damon_pa_young_rmap_one :: "platform \<Rightarrow> page \<Rightarrow> pvmw list \<Rightarrow> bool \<times> ulong" where
  "damon_pa_young_rmap_one pf pg vma = young_entries pf pg (False, PAGE_SIZE pf) vma"

text \<open>
  \<^verbatim>\<open>rmap_walk\<close> with that callback: the walk ends when the callback returns false, which is
  when it found the page accessed.
\<close>

fun rmap_walk_young :: "platform \<Rightarrow> page \<Rightarrow> bool \<times> ulong \<Rightarrow> pvmw list list \<Rightarrow> bool \<times> ulong" where
  "rmap_walk_young pf pg res [] = res"
| "rmap_walk_young pf pg res (vma # vmas) =
     (let res' = damon_pa_young_rmap_one pf pg vma
      in if fst res' then res' else rmap_walk_young pf pg res' vmas)"

text \<open>
  \<^verbatim>\<open>damon_pa_young(paddr, &page_sz)\<close>: the result is the returned flag and the value of
  \<^verbatim>\<open>*page_sz\<close> afterwards; \<open>sz0\<close> is its value before the call, kept when there is no page.
\<close>

definition damon_pa_young :: "platform \<Rightarrow> kstate \<Rightarrow> ulong \<Rightarrow> ulong \<Rightarrow> bool \<times> ulong" where
  "damon_pa_young pf s paddr sz0 =
     (case pages s (PHYS_PFN pf paddr) of
        None \<Rightarrow> (False, sz0)
      | Some pg \<Rightarrow>
          if \<not> pg_mapped pg \<or> \<not> pg_rmapping pg then
            (if pg_idle pg then (False, PAGE_SIZE pf) else (True, PAGE_SIZE pf))
          else if (\<not> pg_anon pg \<or> pg_ksm pg) \<and> \<not> pg_trylock pg then (False, PAGE_SIZE pf)
          else rmap_walk_young pf pg (False, PAGE_SIZE pf) (pg_vmas pg))"

text \<open>
  Modelled from the spec: \<^verbatim>\<open>damon_ptep_mkold\<close> and \<^verbatim>\<open>damon_pmdp_mkold\<close> of
  \<^verbatim>\<open>prmtv-common.c\<close> are not part of the file. Cold-marking resets the recently-accessed
  signal of the entry so that a later access can be detected: the young bits of the entry
  are cleared and the page is set idle.
\<close>

definition damon_mkold_entry :: "pvmw \<Rightarrow> pvmw" where
  "damon_mkold_entry e = (case e of PTE y n \<Rightarrow> PTE False False | PMD y n \<Rightarrow> PMD False False)"

text \<open>
  \<^verbatim>\<open>__damon_pa_mkold\<close> on the entries of one VMA (it always returns true, so \<^verbatim>\<open>rmap_walk\<close>
  visits every VMA), and the walk over all of them.
\<close>

definition damon_pa_mkold_rmap_one :: "page \<Rightarrow> pvmw list \<Rightarrow> page \<times> pvmw list" where
  "damon_pa_mkold_rmap_one pg vma =
     (if vma = [] then (pg, vma) else (pg\<lparr>pg_idle := True\<rparr>, map damon_mkold_entry vma))"

fun rmap_walk_mkold :: "page \<Rightarrow> pvmw list list \<Rightarrow> page \<times> pvmw list list" where
  "rmap_walk_mkold pg [] = (pg, [])"
| "rmap_walk_mkold pg (vma # vmas) =
     (let (pg1, vma') = damon_pa_mkold_rmap_one pg vma;
          (pg2, vmas') = rmap_walk_mkold pg1 vmas
      in (pg2, vma' # vmas'))"

definition damon_pa_mkold :: "platform \<Rightarrow> ulong \<Rightarrow> kstate \<Rightarrow> kstate" where
  "damon_pa_mkold pf paddr s =
     (case pages s (PHYS_PFN pf paddr) of
        None \<Rightarrow> s
      | Some pg \<Rightarrow>
          if \<not> pg_mapped pg \<or> \<not> pg_rmapping pg then
            s\<lparr>pages := (pages s)(PHYS_PFN pf paddr \<mapsto> pg\<lparr>pg_idle := True\<rparr>)\<rparr>
          else if (\<not> pg_anon pg \<or> pg_ksm pg) \<and> \<not> pg_trylock pg then s
          else
            (let (pg', vmas') = rmap_walk_mkold pg (pg_vmas pg)
             in s\<lparr>pages := (pages s)(PHYS_PFN pf paddr \<mapsto> pg'\<lparr>pg_vmas := vmas'\<rparr>)\<rparr>))"

subsection \<open>The access check engine\<close>

definition log :: "event \<Rightarrow> kstate \<Rightarrow> kstate" where
  "log ev s = s\<lparr>trace := trace s @ [ev]\<rparr>"

text \<open>The five assignments through the pointer that \<^verbatim>\<open>damon_pa_cache_get_slot\<close> returned.\<close>

definition cache_store :: "platform \<Rightarrow> ulong \<Rightarrow> ulong \<Rightarrow> bool \<Rightarrow> kstate \<Rightarrow> kstate" where
  "cache_store pf p sz acc s =
     (let i = damon_pa_cache_get_slot pf s p in
      s\<lparr>damon_pa_cache := (damon_pa_cache s)
          (i := \<lparr>gen = damon_pa_cache_gen s, pfn = p, page_sz = sz, accessed = acc,
                 mkold_done = True\<rparr>)\<rparr>)"

text \<open>The test \<^verbatim>\<open>e && e->mkold_done\<close> of the prepare phase.\<close>

definition mkold_cached :: "platform \<Rightarrow> kstate \<Rightarrow> ulong \<Rightarrow> bool" where
  "mkold_cached pf s p =
     (case damon_pa_cache_lookup pf s p of
        None \<Rightarrow> False
      | Some i \<Rightarrow> mkold_done (damon_pa_cache s i))"

text \<open>\<^verbatim>\<open>__damon_pa_prepare_access_check\<close>.\<close>

definition damon_pa_prepare_access_check ::
  "platform \<Rightarrow> damon_region \<Rightarrow> kstate \<Rightarrow> damon_region \<times> kstate" where
  "damon_pa_prepare_access_check pf r s =
     (let (a, g) = damon_rand pf (rng s) (ar_start r) (ar_end r);
          r' = r\<lparr>sampling_addr := a\<rparr>;
          s1 = s\<lparr>rng := g\<rparr>;
          p = PHYS_PFN pf a
      in if mkold_cached pf s1 p then (r', s1)
         else (r', cache_store pf p 0 False (damon_pa_mkold pf a (log (Mkold a) s1))))"

fun prepare_regions :: "platform \<Rightarrow> damon_region list \<Rightarrow> kstate \<Rightarrow> damon_region list \<times> kstate" where
  "prepare_regions pf [] s = ([], s)"
| "prepare_regions pf (r # rs) s =
     (let (r', s1) = damon_pa_prepare_access_check pf r s;
          (rs', s2) = prepare_regions pf rs s1
      in (r' # rs', s2))"

fun prepare_targets ::
  "platform \<Rightarrow> damon_region list list \<Rightarrow> kstate \<Rightarrow> damon_region list list \<times> kstate" where
  "prepare_targets pf [] s = ([], s)"
| "prepare_targets pf (t # ts) s =
     (let (t', s1) = prepare_regions pf t s;
          (ts', s2) = prepare_targets pf ts s1
      in (t' # ts', s2))"

text \<open>A context is the list of its targets, a target the list of its regions.\<close>

definition damon_pa_prepare_access_checks ::
  "platform \<Rightarrow> damon_region list list \<Rightarrow> kstate \<Rightarrow> damon_region list list \<times> kstate" where
  "damon_pa_prepare_access_checks pf ctx s =
     prepare_targets pf ctx (damon_pa_cache_round_begin s)"

text \<open>The fast path of \<^verbatim>\<open>__damon_pa_check_access\<close>: the entry found, if \<^verbatim>\<open>e && e->page_sz\<close>.\<close>

definition young_cached :: "platform \<Rightarrow> kstate \<Rightarrow> ulong \<Rightarrow> damon_pa_cache_ent option" where
  "young_cached pf s p =
     (case damon_pa_cache_lookup pf s p of
        None \<Rightarrow> None
      | Some i \<Rightarrow> if page_sz (damon_pa_cache s i) \<noteq> 0 then Some (damon_pa_cache s i) else None)"

text \<open>The value of the local \<^verbatim>\<open>accessed\<close> when \<^verbatim>\<open>__damon_pa_check_access\<close> returns.\<close>

definition found_accessed :: "platform \<Rightarrow> damon_region \<Rightarrow> kstate \<Rightarrow> bool" where
  "found_accessed pf r s =
     (case young_cached pf s (PHYS_PFN pf (sampling_addr r)) of
        Some e \<Rightarrow> accessed e
      | None \<Rightarrow> fst (damon_pa_young pf s (sampling_addr r) (PAGE_SIZE pf)))"

definition count_access :: "bool \<Rightarrow> damon_region \<Rightarrow> damon_region" where
  "count_access acc r = (if acc then r\<lparr>nr_accesses := nr_accesses r + 1\<rparr> else r)"

text \<open>\<^verbatim>\<open>__damon_pa_check_access\<close>.\<close>

definition damon_pa_check_access ::
  "platform \<Rightarrow> damon_region \<Rightarrow> kstate \<Rightarrow> damon_region \<times> kstate" where
  "damon_pa_check_access pf r s =
     (let p = PHYS_PFN pf (sampling_addr r) in
      case young_cached pf s p of
        Some e \<Rightarrow> (count_access (accessed e) r, s)
      | None \<Rightarrow>
          (let (acc, sz) = damon_pa_young pf s (sampling_addr r) (PAGE_SIZE pf);
               s1 = cache_store pf p sz acc (log (Young (sampling_addr r)) s);
               s2 = (if sz > PAGE_SIZE pf then
                       (let npages = drop_bit (PAGE_SHIFT pf) sz;
                            base_pfn = p AND NOT (npages - 1)
                        in cache_store pf base_pfn sz acc s1)
                     else s1)
           in (count_access acc r, s2)))"

fun check_regions ::
  "platform \<Rightarrow> damon_region list \<Rightarrow> uint \<Rightarrow> kstate \<Rightarrow> damon_region list \<times> uint \<times> kstate" where
  "check_regions pf [] m s = ([], m, s)"
| "check_regions pf (r # rs) m s =
     (let (r', s1) = damon_pa_check_access pf r s;
          m1 = max (nr_accesses r') m;
          (rs', m2, s2) = check_regions pf rs m1 s1
      in (r' # rs', m2, s2))"

fun check_targets ::
  "platform \<Rightarrow> damon_region list list \<Rightarrow> uint \<Rightarrow> kstate
     \<Rightarrow> damon_region list list \<times> uint \<times> kstate" where
  "check_targets pf [] m s = ([], m, s)"
| "check_targets pf (t # ts) m s =
     (let (t', m1, s1) = check_regions pf t m s;
          (ts', m2, s2) = check_targets pf ts m1 s1
      in (t' # ts', m2, s2))"

text \<open>
  \<^verbatim>\<open>damon_pa_check_accesses\<close>: the regions as the function leaves them, the value it returns
  and the state.
\<close>

definition damon_pa_check_accesses ::
  "platform \<Rightarrow> damon_region list list \<Rightarrow> kstate \<Rightarrow> damon_region list list \<times> uint \<times> kstate" where
  "damon_pa_check_accesses pf ctx s = check_targets pf ctx 0 s"

subsection \<open>The reclaim executor\<close>

record damos =
  action :: damos_action

text \<open>
  One iteration of the loop of \<^verbatim>\<open>damon_pa_apply_scheme\<close>: the page list (\<^verbatim>\<open>list_add\<close> puts
  the page at its head) and the state. The calls are recorded; what they change inside
  the page subsystem is outside this file.
\<close>

definition scan_page :: "platform \<Rightarrow> ulong \<Rightarrow> ulong list \<times> kstate \<Rightarrow> ulong list \<times> kstate" where
  "scan_page pf addr st =
     (let page_list = fst st;
          p = PHYS_PFN pf addr;
          s1 = log (GetPage p) (snd st)
      in case pages s1 p of
           None \<Rightarrow> (page_list, s1)
         | Some pg \<Rightarrow>
             (let s2 = log (TestAndClearPageYoung p) (log (ClearPageReferenced p) s1);
                  s3 = log (IsolateLruPage p) s2
              in if \<not> pg_isolate_ok pg then (page_list, log (PutPage p) s3)
                 else if pg_unevictable pg then (page_list, log (PutbackLruPage p) s3)
                 else (p # page_list, log (PutPage p) (log (ListAdd p) s3))))"

text \<open>
  The loop \<^verbatim>\<open>for (addr = r->ar.start; addr < r->ar.end; addr += PAGE_SIZE)\<close>. The addition
  wraps, so the loop need not end: \<open>None\<close> is the run that never leaves it.
\<close>

partial_function (option) pageout_scan ::
  "platform \<Rightarrow> ulong \<Rightarrow> ulong \<Rightarrow> ulong list \<times> kstate \<Rightarrow> (ulong list \<times> kstate) option" where
  "pageout_scan pf addr e st =
     (if addr < e then pageout_scan pf (addr + PAGE_SIZE pf) e (scan_page pf addr st)
      else Some st)"

definition damon_pa_apply_scheme ::
  "platform \<Rightarrow> damon_region \<Rightarrow> damos \<Rightarrow> kstate \<Rightarrow> (ulong \<times> kstate) option" where
  "damon_pa_apply_scheme pf r scheme s =
     (if action scheme \<noteq> DAMOS_PAGEOUT then Some (0, s)
      else
        (case pageout_scan pf (ar_start r) (ar_end r) ([], s) of
           None \<Rightarrow> None
         | Some (page_list, s1) \<Rightarrow>
             (let applied = reclaim_pages pf page_list
              in Some (applied * PAGE_SIZE pf,
                       log CondResched (log (ReclaimPages page_list) s1)))))"

definition damon_pa_target_valid :: bool where
  "damon_pa_target_valid = True"

subsection \<open>A concrete platform\<close>

text \<open>
  For the examples: \<^verbatim>\<open>hash_long\<close> as linux/hash.h defines it on a 64-bit kernel
  (\<^verbatim>\<open>hash_64\<close>, the product with \<^verbatim>\<open>GOLDEN_RATIO_64\<close> shifted down), 4 KiB pages, 2 MiB
  huge pages, a generator that returns the start of the range, and a reclaim that takes
  every page of its list.
\<close>

definition hash_64 :: "ulong \<Rightarrow> nat \<Rightarrow> ulong" where
  "hash_64 val bits = drop_bit (64 - bits) (val * 0x61C8864680B583EB)"

definition pf4k :: platform where
  "pf4k = \<lparr>hash_long = hash_64, PAGE_SHIFT = 12, HPAGE_PMD_SHIFT = 21,
            CONFIG_TRANSPARENT_HUGEPAGE = True,
            damon_rand = (\<lambda>g l r. (l, Suc g)),
            reclaim_pages = (\<lambda>l. of_nat (length l))\<rparr>"

subsection \<open>Invariants and reachable states\<close>

text \<open>No live entry of the table holds the frame number \<open>F\<close>.\<close>

definition no_live_for :: "kstate \<Rightarrow> ulong \<Rightarrow> bool" where
  "no_live_for s F \<longleftrightarrow>
     (\<forall>i<unat DAMON_PA_CACHE_SIZE. live s i \<longrightarrow> pfn (damon_pa_cache s i) \<noteq> F)"

text \<open>
  No slot carries the generation that the next \<^verbatim>\<open>damon_pa_cache_round_begin\<close> makes current:
  what the logical clear relies on.
\<close>

definition cache_fresh :: "kstate \<Rightarrow> bool" where
  "cache_fresh s \<longleftrightarrow>
     (\<forall>i<unat DAMON_PA_CACHE_SIZE.
        gen (damon_pa_cache s i) \<noteq> damon_pa_cache_gen (damon_pa_cache_round_begin s))"

text \<open>A sequence of entry writes: each claims its slot and sets every field.\<close>

definition store_all :: "platform \<Rightarrow> (ulong \<times> ulong \<times> bool) list \<Rightarrow> kstate \<Rightarrow> kstate" where
  "store_all pf ws s = fold (\<lambda>(p, sz, acc). cache_store pf p sz acc) ws s"

text \<open>Every entry that was ever written (its generation is not 0) has \<open>mkold_done\<close> set.\<close>

definition mkold_inv :: "kstate \<Rightarrow> bool" where
  "mkold_inv s \<longleftrightarrow>
     (\<forall>i<unat DAMON_PA_CACHE_SIZE.
        gen (damon_pa_cache s i) \<noteq> 0 \<longrightarrow> mkold_done (damon_pa_cache s i))"

text \<open>
  The states the kernel can be in: from boot, by the operations of the file in any order,
  while the rest of the kernel and the monitored workload change the pages between calls.
\<close>

inductive reachable :: "platform \<Rightarrow> kstate \<Rightarrow> bool" for pf :: platform where
  boot: "reachable pf (boot_state pgs seed)"
| round_begin: "reachable pf s \<Longrightarrow> reachable pf (damon_pa_cache_round_begin s)"
| prepare: "reachable pf s \<Longrightarrow> reachable pf (snd (damon_pa_prepare_access_check pf r s))"
| check: "reachable pf s \<Longrightarrow> reachable pf (snd (damon_pa_check_access pf r s))"
| apply_scheme: "reachable pf s \<Longrightarrow> damon_pa_apply_scheme pf r sch s = Some (n, s')
     \<Longrightarrow> reachable pf s'"
| touch: "reachable pf s \<Longrightarrow> reachable pf (s\<lparr>pages := pgs\<rparr>)"

text \<open>
  No slot carries a generation above the current one, compared as unsigned 64-bit numbers:
  every write stamps a slot with the current generation, and the counter only goes up
  until it wraps.
\<close>

definition gens_bounded :: "kstate \<Rightarrow> bool" where
  "gens_bounded s \<longleftrightarrow>
     (\<forall>i<unat DAMON_PA_CACHE_SIZE. gen (damon_pa_cache s i) \<le> damon_pa_cache_gen s)"

text \<open>
  The reachable states again, now counting the calls of \<^verbatim>\<open>damon_pa_cache_round_begin\<close>
  since boot: \<open>after_rounds pf n s\<close> says that \<open>s\<close> is reached from boot with exactly \<open>n\<close>
  such calls among the operations.
\<close>

inductive after_rounds :: "platform \<Rightarrow> nat \<Rightarrow> kstate \<Rightarrow> bool" for pf :: platform where
  boot: "after_rounds pf 0 (boot_state pgs seed)"
| round_begin: "after_rounds pf n s \<Longrightarrow> after_rounds pf (Suc n) (damon_pa_cache_round_begin s)"
| prepare: "after_rounds pf n s \<Longrightarrow> after_rounds pf n (snd (damon_pa_prepare_access_check pf r s))"
| check: "after_rounds pf n s \<Longrightarrow> after_rounds pf n (snd (damon_pa_check_access pf r s))"
| apply_scheme: "after_rounds pf n s \<Longrightarrow> damon_pa_apply_scheme pf r sch s = Some (m, s')
     \<Longrightarrow> after_rounds pf n s'"
| touch: "after_rounds pf n s \<Longrightarrow> after_rounds pf n (s\<lparr>pages := pgs\<rparr>)"

text \<open>The local \<^verbatim>\<open>base_pfn\<close> of \<^verbatim>\<open>__damon_pa_check_access\<close>: \<^verbatim>\<open>pfn & ~(npages - 1)\<close>.\<close>

definition huge_base :: "platform \<Rightarrow> ulong \<Rightarrow> ulong \<Rightarrow> ulong" where
  "huge_base pf p sz = p AND NOT (drop_bit (PAGE_SHIFT pf) sz - 1)"

subsection \<open>Example inputs\<close>

definition region_1 :: damon_region where
  "region_1 = \<lparr>ar_start = 0x1000, ar_end = 0x2000, sampling_addr = 0, nr_accesses = 0\<rparr>"

definition no_pages :: "ulong \<Rightarrow> page option" where
  "no_pages = (\<lambda>_. None)"

text \<open>The state after the first round over one region, and after its first region only.\<close>

definition round1_state :: kstate where
  "round1_state = snd (damon_pa_prepare_access_checks pf4k [[region_1]] (boot_state no_pages 0))"

definition prepared_state :: kstate where
  "prepared_state =
     snd (damon_pa_prepare_access_check pf4k region_1
            (damon_pa_cache_round_begin (boot_state no_pages 0)))"

subsection \<open>The hot test, the maximum and the reclaim scan\<close>

text \<open>
  A page-cache page that no process maps, touched since it was last set idle.
\<close>

definition page_unmapped_touched :: page where
  "page_unmapped_touched =
     \<lparr>pg_mapped = False, pg_rmapping = False, pg_idle = False, pg_anon = False, pg_ksm = False,
      pg_trylock = True, pg_isolate_ok = True, pg_unevictable = False, pg_vmas = []\<rparr>"

text \<open>
  The first round has prepared region 1; then the page of frame 1 is touched.
\<close>

definition unmapped_touched_state :: kstate where
  "unmapped_touched_state = prepared_state\<lparr>pages := no_pages(1 \<mapsto> page_unmapped_touched)\<rparr>"

definition region_1_sampled :: damon_region where
  "region_1_sampled = region_1\<lparr>sampling_addr := 0x1000\<rparr>"

text \<open>
  The value of the local \<^verbatim>\<open>accessed\<close> for each region, in the order
  \<^verbatim>\<open>damon_pa_check_accesses\<close> visits them.
\<close>

fun found_regions :: "platform \<Rightarrow> damon_region list \<Rightarrow> kstate \<Rightarrow> bool list" where
  "found_regions pf [] s = []"
| "found_regions pf (r # rs) s =
     found_accessed pf r s # found_regions pf rs (snd (damon_pa_check_access pf r s))"

fun found_targets :: "platform \<Rightarrow> damon_region list list \<Rightarrow> kstate \<Rightarrow> bool list list" where
  "found_targets pf [] s = []"
| "found_targets pf (t # ts) s =
     found_regions pf t s # found_targets pf ts (snd (snd (check_regions pf t 0 s)))"

definition two_targets :: "damon_region list list" where
  "two_targets = [[region_1_sampled], [region_1_sampled\<lparr>nr_accesses := 5\<rparr>, region_1]]"

text \<open>
  The loop of \<^verbatim>\<open>damon_pa_apply_scheme\<close> run for a given number of iterations, and the
  number of iterations the loop makes when its address does not wrap.
\<close>

fun scan_pages ::
  "platform \<Rightarrow> nat \<Rightarrow> ulong \<Rightarrow> ulong list \<times> kstate \<Rightarrow> ulong list \<times> kstate" where
  "scan_pages pf 0 addr st = st"
| "scan_pages pf (Suc n) addr st = scan_pages pf n (addr + PAGE_SIZE pf) (scan_page pf addr st)"

definition nr_pages :: "platform \<Rightarrow> ulong \<Rightarrow> ulong \<Rightarrow> nat" where
  "nr_pages pf a e =
     (if a < e then (unat e - unat a + unat (PAGE_SIZE pf) - 1) div unat (PAGE_SIZE pf) else 0)"

text \<open>
  The frame lookups among the recorded calls.
\<close>

definition is_GetPage :: "event \<Rightarrow> bool" where
  "is_GetPage ev = (case ev of GetPage _ \<Rightarrow> True | _ \<Rightarrow> False)"

text \<open>
  The pages the loop puts on its list: isolated from the LRU and not unevictable.
\<close>

definition evictable :: "kstate \<Rightarrow> ulong \<Rightarrow> bool" where
  "evictable s p =
     (case pages s p of None \<Rightarrow> False | Some pg \<Rightarrow> pg_isolate_ok pg \<and> \<not> pg_unevictable pg)"

text \<open>
  The calls one iteration of the loop makes.
\<close>

definition scan_events :: "platform \<Rightarrow> kstate \<Rightarrow> ulong \<Rightarrow> event list" where
  "scan_events pf s addr =
     (let p = PHYS_PFN pf addr in
      case pages s p of
        None \<Rightarrow> [GetPage p]
      | Some pg \<Rightarrow>
          [GetPage p, ClearPageReferenced p, TestAndClearPageYoung p, IsolateLruPage p] @
          (if \<not> pg_isolate_ok pg then [PutPage p]
           else if pg_unevictable pg then [PutbackLruPage p]
           else [ListAdd p, PutPage p]))"

text \<open>
  The loop address cannot wrap: the page size is a power of two below \<open>2 ^ 64\<close> and the
  end of the region lies at least one page below \<open>2 ^ 64\<close>.
\<close>

definition range_ok :: "platform \<Rightarrow> damon_region \<Rightarrow> bool" where
  "range_ok pf r \<longleftrightarrow> PAGE_SHIFT pf < 64 \<and> unat (ar_end r) + unat (PAGE_SIZE pf) \<le> 2 ^ 64"

text \<open>
  A pageout scheme, a region of 1 GiB, a region of two pages, and a page on the LRU.
\<close>

definition pageout :: damos where
  "pageout = \<lparr>action = DAMOS_PAGEOUT\<rparr>"

definition region_1g :: damon_region where
  "region_1g = \<lparr>ar_start = 0, ar_end = 0x40000000, sampling_addr = 0, nr_accesses = 0\<rparr>"

definition region_2p :: damon_region where
  "region_2p = \<lparr>ar_start = 0x1000, ar_end = 0x3000, sampling_addr = 0, nr_accesses = 0\<rparr>"

definition page_lru :: page where
  "page_lru =
     \<lparr>pg_mapped = True, pg_rmapping = True, pg_idle = False, pg_anon = True, pg_ksm = False,
      pg_trylock = True, pg_isolate_ok = True, pg_unevictable = False, pg_vmas = []\<rparr>"

definition two_pages :: "ulong \<Rightarrow> page option" where
  "two_pages = no_pages(1 \<mapsto> page_lru, 2 \<mapsto> page_lru\<lparr>pg_unevictable := True\<rparr>)"

subsection \<open>Rounds over colliding frames and huge units\<close>

text \<open>
  A mapped anonymous page that one PTE maps, and one that one PMD maps (a huge mapping);
  both entries are young.
\<close>

definition page_pte_young :: page where
  "page_pte_young =
     \<lparr>pg_mapped = True, pg_rmapping = True, pg_idle = False, pg_anon = True, pg_ksm = False,
      pg_trylock = True, pg_isolate_ok = True, pg_unevictable = False,
      pg_vmas = [[PTE True False]]\<rparr>"

definition page_pmd_young :: page where
  "page_pmd_young =
     \<lparr>pg_mapped = True, pg_rmapping = True, pg_idle = False, pg_anon = True, pg_ksm = False,
      pg_trylock = True, pg_isolate_ok = True, pg_unevictable = False,
      pg_vmas = [[PMD True False]]\<rparr>"

text \<open>
  Every frame holds such a page.
\<close>

definition all_mapped :: "ulong \<Rightarrow> page option" where
  "all_mapped = (\<lambda>_. Some page_pte_young)"

text \<open>
  The region that covers exactly the frame \<open>p\<close>.
\<close>

definition frame_region :: "ulong \<Rightarrow> damon_region" where
  "frame_region p =
     \<lparr>ar_start = push_bit 12 p, ar_end = push_bit 12 p + 4096, sampling_addr = 0,
      nr_accesses = 0\<rparr>"

text \<open>
  Six regions of one target. The frames 144, 377, 754, 987 and 1131 all hash to slot 0;
  the last region samples frame 144 again.
\<close>

definition colliding_regions :: "damon_region list list" where
  "colliding_regions = [map frame_region [144, 377, 754, 987, 1131, 144]]"

text \<open>
  Two frames of one 2 MiB unit (base frame 0x200), a round that prepares one region on
  each, and the state after the workload has touched both again.
\<close>

definition huge_pages :: "ulong \<Rightarrow> page option" where
  "huge_pages = no_pages(0x201 \<mapsto> page_pmd_young, 0x202 \<mapsto> page_pmd_young)"

definition huge_regions :: "damon_region list list" where
  "huge_regions = [[frame_region 0x201, frame_region 0x202]]"

definition huge_prepared :: "damon_region list list \<times> kstate" where
  "huge_prepared = damon_pa_prepare_access_checks pf4k huge_regions (boot_state huge_pages 0)"

definition huge_touched :: kstate where
  "huge_touched = (snd huge_prepared)\<lparr>pages := huge_pages\<rparr>"

text \<open>
  The state after one whole round over one region.
\<close>

definition one_round :: kstate where
  "one_round =
     (let (ctx, s) = damon_pa_prepare_access_checks pf4k [[region_1]] (boot_state all_mapped 0)
      in snd (snd (damon_pa_check_accesses pf4k ctx s)))"

text \<open>
  Frame 0x201 is mapped by a young PMD and frame 0x200 has no page on the LRU. The round
  prepares a region on each; then the workload touches the memory again.
\<close>

definition split_pages :: "ulong \<Rightarrow> page option" where
  "split_pages = no_pages(0x201 \<mapsto> page_pmd_young)"

definition split_regions :: "damon_region list list" where
  "split_regions = [[frame_region 0x201, frame_region 0x200]]"

definition split_prepared :: "damon_region list list \<times> kstate" where
  "split_prepared = damon_pa_prepare_access_checks pf4k split_regions (boot_state split_pages 0)"

definition split_cached :: kstate where
  "split_cached = (snd split_prepared)\<lparr>pages := split_pages\<rparr>"

subsection \<open>The cache against the memory\<close>

text \<open>
  \<^verbatim>\<open>damon_pa_young\<close> and \<^verbatim>\<open>damon_pa_mkold\<close> depend on their address only through the page
  that \<^verbatim>\<open>damon_get_page\<close> returns for its frame. \<open>young_of\<close> is the first as a function of
  that page, \<open>hot\<close> the flag it returns for a frame of the memory \<open>m\<close>.
\<close>

definition young_of :: "platform \<Rightarrow> page option \<Rightarrow> ulong \<Rightarrow> bool \<times> ulong" where
  "young_of pf pgo sz0 =
     (case pgo of
        None \<Rightarrow> (False, sz0)
      | Some pg \<Rightarrow>
          if \<not> pg_mapped pg \<or> \<not> pg_rmapping pg then
            (if pg_idle pg then (False, PAGE_SIZE pf) else (True, PAGE_SIZE pf))
          else if (\<not> pg_anon pg \<or> pg_ksm pg) \<and> \<not> pg_trylock pg then (False, PAGE_SIZE pf)
          else rmap_walk_young pf pg (False, PAGE_SIZE pf) (pg_vmas pg))"

definition hot :: "platform \<Rightarrow> (ulong \<Rightarrow> page option) \<Rightarrow> ulong \<Rightarrow> bool" where
  "hot pf m p = fst (young_of pf (m p) (PAGE_SIZE pf))"

text \<open>
  The cache agrees with the memory in the check phase: every live entry whose hot-test is
  resolved holds the flag that the hot-test of its frame returns now.
\<close>

definition check_sound :: "platform \<Rightarrow> kstate \<Rightarrow> bool" where
  "check_sound pf s \<longleftrightarrow>
     (\<forall>i<unat DAMON_PA_CACHE_SIZE.
        live s i \<and> page_sz (damon_pa_cache s i) \<noteq> 0 \<longrightarrow>
        accessed (damon_pa_cache s i) = hot pf (pages s) (pfn (damon_pa_cache s i)))"

text \<open>
  The hot-test of the sample frame of \<open>r\<close>, when it reports a huge mapping, agrees with the
  hot-test of the base frame of the unit.
\<close>

definition huge_uniform :: "platform \<Rightarrow> (ulong \<Rightarrow> page option) \<Rightarrow> damon_region \<Rightarrow> bool" where
  "huge_uniform pf m r \<longleftrightarrow>
     (let p = PHYS_PFN pf (sampling_addr r);
          res = young_of pf (m p) (PAGE_SIZE pf)
      in snd res > PAGE_SIZE pf \<longrightarrow> hot pf m (huge_base pf p (snd res)) = fst res)"

text \<open>
  \<^verbatim>\<open>damon_pa_mkold\<close> as a function of the page of its frame.
\<close>

definition mkold_of :: "page option \<Rightarrow> page option" where
  "mkold_of pgo =
     (case pgo of
        None \<Rightarrow> None
      | Some pg \<Rightarrow>
          if \<not> pg_mapped pg \<or> \<not> pg_rmapping pg then Some (pg\<lparr>pg_idle := True\<rparr>)
          else if (\<not> pg_anon pg \<or> pg_ksm pg) \<and> \<not> pg_trylock pg then Some pg
          else
            (let (pg', vmas') = rmap_walk_mkold pg (pg_vmas pg)
             in Some (pg'\<lparr>pg_vmas := vmas'\<rparr>)))"

text \<open>
  The cache agrees with the memory in the prepare phase: marking the frame of a live
  cold-marked entry cold again would change nothing.
\<close>

definition prepare_sound :: "kstate \<Rightarrow> bool" where
  "prepare_sound s \<longleftrightarrow>
     (\<forall>i<unat DAMON_PA_CACHE_SIZE.
        live s i \<and> mkold_done (damon_pa_cache s i) \<longrightarrow>
        mkold_of (pages s (pfn (damon_pa_cache s i))) = pages s (pfn (damon_pa_cache s i)))"

text \<open>
  No live entry holds a resolved hot-test.
\<close>

definition unresolved :: "kstate \<Rightarrow> bool" where
  "unresolved s \<longleftrightarrow>
     (\<forall>i<unat DAMON_PA_CACHE_SIZE. live s i \<longrightarrow> page_sz (damon_pa_cache s i) = 0)"

text \<open>
  Invalidating the whole cache: every entry is made stale. The runs below are the two
  phases with the cache invalidated before the visit of every region that is flagged.
\<close>

definition invalidate_cache :: "kstate \<Rightarrow> kstate" where
  "invalidate_cache s =
     s\<lparr>damon_pa_cache := (\<lambda>i. (damon_pa_cache s i)\<lparr>gen := damon_pa_cache_gen s + 1\<rparr>)\<rparr>"

definition maybe_invalidate :: "bool \<Rightarrow> kstate \<Rightarrow> kstate" where
  "maybe_invalidate w s = (if w then invalidate_cache s else s)"

fun prepare_regions_invalidating ::
  "platform \<Rightarrow> (bool \<times> damon_region) list \<Rightarrow> kstate \<Rightarrow> damon_region list \<times> kstate" where
  "prepare_regions_invalidating pf [] s = ([], s)"
| "prepare_regions_invalidating pf (wr # wrs) s =
     (let (r', s1) = damon_pa_prepare_access_check pf (snd wr) (maybe_invalidate (fst wr) s);
          (rs', s2) = prepare_regions_invalidating pf wrs s1
      in (r' # rs', s2))"

fun prepare_targets_invalidating ::
  "platform \<Rightarrow> (bool \<times> damon_region) list list \<Rightarrow> kstate
     \<Rightarrow> damon_region list list \<times> kstate" where
  "prepare_targets_invalidating pf [] s = ([], s)"
| "prepare_targets_invalidating pf (t # ts) s =
     (let (t', s1) = prepare_regions_invalidating pf t s;
          (ts', s2) = prepare_targets_invalidating pf ts s1
      in (t' # ts', s2))"

definition prepare_access_checks_invalidating ::
  "platform \<Rightarrow> (bool \<times> damon_region) list list \<Rightarrow> kstate
     \<Rightarrow> damon_region list list \<times> kstate" where
  "prepare_access_checks_invalidating pf wctx s =
     prepare_targets_invalidating pf wctx (damon_pa_cache_round_begin s)"

fun check_regions_invalidating ::
  "platform \<Rightarrow> (bool \<times> damon_region) list \<Rightarrow> uint \<Rightarrow> kstate
     \<Rightarrow> damon_region list \<times> uint \<times> kstate" where
  "check_regions_invalidating pf [] m s = ([], m, s)"
| "check_regions_invalidating pf (wr # wrs) m s =
     (let (r', s1) = damon_pa_check_access pf (snd wr) (maybe_invalidate (fst wr) s);
          m1 = max (nr_accesses r') m;
          (rs', m2, s2) = check_regions_invalidating pf wrs m1 s1
      in (r' # rs', m2, s2))"

fun check_targets_invalidating ::
  "platform \<Rightarrow> (bool \<times> damon_region) list list \<Rightarrow> uint \<Rightarrow> kstate
     \<Rightarrow> damon_region list list \<times> uint \<times> kstate" where
  "check_targets_invalidating pf [] m s = ([], m, s)"
| "check_targets_invalidating pf (t # ts) m s =
     (let (t', m1, s1) = check_regions_invalidating pf t m s;
          (ts', m2, s2) = check_targets_invalidating pf ts m1 s1
      in (t' # ts', m2, s2))"

definition check_accesses_invalidating ::
  "platform \<Rightarrow> (bool \<times> damon_region) list list \<Rightarrow> kstate
     \<Rightarrow> damon_region list list \<times> uint \<times> kstate" where
  "check_accesses_invalidating pf wctx s = check_targets_invalidating pf wctx 0 s"

text \<open>
  The region of frame \<open>p\<close> as the prepare phase leaves it, a memory in which the two frames
  of a unit are mapped by a young PMD, and a round over them with the cache invalidated
  before the second region is prepared and before the first is checked.
\<close>

definition sampled_region :: "ulong \<Rightarrow> damon_region" where
  "sampled_region p = (frame_region p)\<lparr>sampling_addr := ar_start (frame_region p)\<rparr>"

definition uniform_pages :: "ulong \<Rightarrow> page option" where
  "uniform_pages = no_pages(0x200 \<mapsto> page_pmd_young, 0x201 \<mapsto> page_pmd_young)"

definition wiped_prepare :: "(bool \<times> damon_region) list list" where
  "wiped_prepare = [[(False, frame_region 0x201), (True, frame_region 0x200)]]"

definition wiped_check :: "(bool \<times> damon_region) list list" where
  "wiped_check = [[(True, sampled_region 0x201), (False, sampled_region 0x200)]]"

text \<open>
  The regions of the round over \<open>split_pages\<close>, with the cache invalidated before the check
  of the first.
\<close>

definition split_wiped :: "(bool \<times> damon_region) list list" where
  "split_wiped = [[(True, sampled_region 0x201), (False, sampled_region 0x200)]]"

text \<open>
  A region that ends within the last page of the address space.
\<close>

definition region_top :: damon_region where
  "region_top = \<lparr>ar_start = 0, ar_end = - 1, sampling_addr = 0, nr_accesses = 0\<rparr>"

section \<open>Properties\<close>

subsection \<open>The round cache\<close>

lemma cache_size_unat: "unat DAMON_PA_CACHE_SIZE = 256"
  by (simp add: DAMON_PA_CACHE_SIZE_def DAMON_PA_CACHE_BITS_def)

lemma cache_mask: "DAMON_PA_CACHE_SIZE - 1 = 255"
  by (simp add: DAMON_PA_CACHE_SIZE_def DAMON_PA_CACHE_BITS_def)

lemma unat_and_255: "unat ((x :: ulong) AND 255) < 256"
proof -
  have "x AND 255 \<le> 255" by (rule word_and_le1)
  then have "unat (x AND 255) \<le> unat (255 :: ulong)" by (simp add: word_le_nat_alt)
  then show ?thesis by simp
qed

lemma probe_index_lt: "probe_index pf p i < unat DAMON_PA_CACHE_SIZE"
  by (simp add: probe_index_def cache_mask cache_size_unat unat_and_255)

lemma lookup_probes_Some:
  "lookup_probes pf s p is = Some j \<Longrightarrow>
     live s j \<and> pfn (damon_pa_cache s j) = p \<and> (\<exists>i\<in>set is. j = probe_index pf p i)"
  by (induction "is") (auto simp: Let_def live_def split: if_splits)

lemma lookup_probes_None:
  "lookup_probes pf s p is = None \<longleftrightarrow>
     (\<forall>i\<in>set is. \<not> (live s (probe_index pf p i) \<and> pfn (damon_pa_cache s (probe_index pf p i)) = p))"
  by (induction "is") (auto simp: Let_def live_def)

lemma lookup_Some:
  "damon_pa_cache_lookup pf s p = Some j \<Longrightarrow>
     live s j \<and> pfn (damon_pa_cache s j) = p \<and> j < unat DAMON_PA_CACHE_SIZE"
proof -
  assume "damon_pa_cache_lookup pf s p = Some j"
  then obtain i where "live s j" "pfn (damon_pa_cache s j) = p" "j = probe_index pf p i"
    unfolding damon_pa_cache_lookup_def by (blast dest: lookup_probes_Some)
  then show ?thesis by (simp add: probe_index_lt)
qed

lemma no_live_lookup_None: "no_live_for s F \<Longrightarrow> damon_pa_cache_lookup pf s F = None"
  by (cases "damon_pa_cache_lookup pf s F") (auto dest!: lookup_Some simp: no_live_for_def)

lemma cache_store_gen [simp]: "damon_pa_cache_gen (cache_store pf p sz acc s) = damon_pa_cache_gen s"
  by (simp add: cache_store_def Let_def)

lemma cache_store_trace [simp]: "trace (cache_store pf p sz acc s) = trace s"
  by (simp add: cache_store_def Let_def)

lemma cache_store_pages [simp]: "pages (cache_store pf p sz acc s) = pages s"
  by (simp add: cache_store_def Let_def)

lemma cache_store_rng [simp]: "rng (cache_store pf p sz acc s) = rng s"
  by (simp add: cache_store_def Let_def)

lemma cache_store_no_live:
  "no_live_for s F \<Longrightarrow> p \<noteq> F \<Longrightarrow> no_live_for (cache_store pf p sz acc s) F"
  by (auto simp: no_live_for_def cache_store_def Let_def live_def)

lemma store_all_no_live:
  "no_live_for s F \<Longrightarrow> \<forall>w\<in>set ws. fst w \<noteq> F \<Longrightarrow> no_live_for (store_all pf ws s) F"
  unfolding store_all_def
  by (induction ws arbitrary: s) (auto simp: cache_store_no_live)

lemma round_begin_gen_nonzero: "damon_pa_cache_gen (damon_pa_cache_round_begin s) \<noteq> 0"
  by (simp add: damon_pa_cache_round_begin_def Let_def)

lemma fresh_no_live: "cache_fresh s \<Longrightarrow> no_live_for (damon_pa_cache_round_begin s) F"
  by (auto simp: cache_fresh_def no_live_for_def live_def damon_pa_cache_round_begin_def Let_def)

lemma get_slot_probes_window:
  "\<exists>i. get_slot_probes pf s p is = probe_index pf p i \<and> (i = 0 \<or> i \<in> set is)"
proof (induction "is")
  case Nil
  have "get_slot_probes pf s p [] = probe_index pf p 0"
    by (simp add: probe_index_def)
  then show ?case by blast
next
  case (Cons a "is")
  then show ?case by (auto simp: Let_def)
qed

lemma get_slot_window:
  "\<exists>i<DAMON_PA_CACHE_PROBES. damon_pa_cache_get_slot pf s p = probe_index pf p i"
proof -
  obtain i where "damon_pa_cache_get_slot pf s p = probe_index pf p i"
      "i = 0 \<or> i \<in> set [0..<DAMON_PA_CACHE_PROBES]"
    unfolding damon_pa_cache_get_slot_def using get_slot_probes_window by blast
  then have "i < DAMON_PA_CACHE_PROBES" by (auto simp: DAMON_PA_CACHE_PROBES_def)
  with \<open>damon_pa_cache_get_slot pf s p = probe_index pf p i\<close> show ?thesis by blast
qed

lemma get_slot_lt: "damon_pa_cache_get_slot pf s p < unat DAMON_PA_CACHE_SIZE"
  using get_slot_window [of pf s p] by (auto simp: probe_index_lt)

lemma cache_store_lookup: "damon_pa_cache_lookup pf (cache_store pf p sz acc s) p \<noteq> None"
proof -
  obtain i where i: "i < DAMON_PA_CACHE_PROBES"
      "damon_pa_cache_get_slot pf s p = probe_index pf p i"
    using get_slot_window by blast
  let ?s = "cache_store pf p sz acc s"
  have "live ?s (probe_index pf p i) \<and> pfn (damon_pa_cache ?s (probe_index pf p i)) = p"
    using i by (simp add: cache_store_def Let_def live_def)
  moreover have "i \<in> set [0..<DAMON_PA_CACHE_PROBES]" using i by simp
  ultimately show ?thesis
    unfolding damon_pa_cache_lookup_def lookup_probes_None by blast
qed

lemma mkold_inv_boot: "mkold_inv (boot_state pgs seed)"
  by (simp add: mkold_inv_def boot_state_def zero_ent_def)

lemma mkold_inv_round_begin: "mkold_inv s \<Longrightarrow> mkold_inv (damon_pa_cache_round_begin s)"
  by (simp add: mkold_inv_def damon_pa_cache_round_begin_def Let_def)

lemma mkold_inv_cache_store: "mkold_inv s \<Longrightarrow> mkold_inv (cache_store pf p sz acc s)"
  by (simp add: mkold_inv_def cache_store_def Let_def)

lemma damon_pa_mkold_cache [simp]:
  "damon_pa_cache (damon_pa_mkold pf a s) = damon_pa_cache s"
  "damon_pa_cache_gen (damon_pa_mkold pf a s) = damon_pa_cache_gen s"
  "trace (damon_pa_mkold pf a s) = trace s"
  "rng (damon_pa_mkold pf a s) = rng s"
  by (auto simp: damon_pa_mkold_def Let_def split: option.splits prod.splits)

lemma log_simps [simp]:
  "damon_pa_cache (log ev s) = damon_pa_cache s"
  "damon_pa_cache_gen (log ev s) = damon_pa_cache_gen s"
  "pages (log ev s) = pages s"
  "rng (log ev s) = rng s"
  "trace (log ev s) = trace s @ [ev]"
  by (simp_all add: log_def)

lemma mkold_inv_cong:
  "damon_pa_cache s' = damon_pa_cache s \<Longrightarrow> mkold_inv s' = mkold_inv s"
  by (simp add: mkold_inv_def)

lemma mkold_inv_prepare:
  assumes "mkold_inv s"
  shows "mkold_inv (snd (damon_pa_prepare_access_check pf r s))"
proof -
  obtain a g where ag: "damon_rand pf (rng s) (ar_start r) (ar_end r) = (a, g)"
    by (cases "damon_rand pf (rng s) (ar_start r) (ar_end r)")
  have 1: "mkold_inv (s\<lparr>rng := g\<rparr>)" using assms by (simp add: mkold_inv_def)
  have 2: "mkold_inv (damon_pa_mkold pf a (log (Mkold a) (s\<lparr>rng := g\<rparr>)))"
    using assms by (simp add: mkold_inv_def)
  show ?thesis
    using 1 2 by (simp add: damon_pa_prepare_access_check_def ag Let_def mkold_inv_cache_store)
qed

lemma check_access_miss:
  assumes "young_cached pf s (PHYS_PFN pf (sampling_addr r)) = None"
    and "damon_pa_young pf s (sampling_addr r) (PAGE_SIZE pf) = (acc, sz)"
  shows "damon_pa_check_access pf r s =
    (count_access acc r,
     (if sz > PAGE_SIZE pf
      then cache_store pf (huge_base pf (PHYS_PFN pf (sampling_addr r)) sz) sz acc
             (cache_store pf (PHYS_PFN pf (sampling_addr r)) sz acc (log (Young (sampling_addr r)) s))
      else cache_store pf (PHYS_PFN pf (sampling_addr r)) sz acc (log (Young (sampling_addr r)) s)))"
  using assms by (simp add: damon_pa_check_access_def Let_def huge_base_def)

lemma check_access_hit:
  assumes "young_cached pf s (PHYS_PFN pf (sampling_addr r)) = Some e"
  shows "damon_pa_check_access pf r s = (count_access (accessed e) r, s)"
  using assms by (simp add: damon_pa_check_access_def Let_def)

lemma mkold_inv_check:
  assumes "mkold_inv s"
  shows "mkold_inv (snd (damon_pa_check_access pf r s))"
proof (cases "young_cached pf s (PHYS_PFN pf (sampling_addr r))")
  case (Some e)
  then show ?thesis using assms by (simp add: check_access_hit)
next
  case None
  obtain acc sz where y: "damon_pa_young pf s (sampling_addr r) (PAGE_SIZE pf) = (acc, sz)"
    by (cases "damon_pa_young pf s (sampling_addr r) (PAGE_SIZE pf)")
  have "mkold_inv (log (Young (sampling_addr r)) s)"
    using assms by (simp add: mkold_inv_def)
  then show ?thesis
    by (simp add: check_access_miss [OF None y] mkold_inv_cache_store)
qed

lemma scan_page_cache [simp]:
  "damon_pa_cache (snd (scan_page pf addr st)) = damon_pa_cache (snd st)"
  "damon_pa_cache_gen (snd (scan_page pf addr st)) = damon_pa_cache_gen (snd st)"
  "pages (snd (scan_page pf addr st)) = pages (snd st)"
  "rng (snd (scan_page pf addr st)) = rng (snd st)"
  by (simp_all add: scan_page_def Let_def split: option.splits)

lemma pageout_scan_cache:
  assumes "pageout_scan pf addr e st = Some st'"
  shows "damon_pa_cache (snd st') = damon_pa_cache (snd st)
     \<and> damon_pa_cache_gen (snd st') = damon_pa_cache_gen (snd st)"
proof (rule pageout_scan.raw_induct
    [where P = "\<lambda>pf addr e st y. damon_pa_cache (snd y) = damon_pa_cache (snd st)
       \<and> damon_pa_cache_gen (snd y) = damon_pa_cache_gen (snd st)", OF _ assms])
  fix scan pf addr e st y
  assume IH: "\<And>pf addr e st y. scan pf addr e st = Some y \<Longrightarrow>
      damon_pa_cache (snd y) = damon_pa_cache (snd st)
      \<and> damon_pa_cache_gen (snd y) = damon_pa_cache_gen (snd st)"
    and eq: "(if addr < e then scan pf (addr + PAGE_SIZE pf) e (scan_page pf addr st)
              else Some st) = Some y"
  show "damon_pa_cache (snd y) = damon_pa_cache (snd st)
      \<and> damon_pa_cache_gen (snd y) = damon_pa_cache_gen (snd st)"
  proof (cases "addr < e")
    case True
    with eq have "scan pf (addr + PAGE_SIZE pf) e (scan_page pf addr st) = Some y" by simp
    from IH [OF this] show ?thesis by simp
  next
    case False
    with eq show ?thesis by simp
  qed
qed

lemma apply_scheme_cache:
  assumes "damon_pa_apply_scheme pf r sch s = Some (n, s')"
  shows "damon_pa_cache s' = damon_pa_cache s \<and> damon_pa_cache_gen s' = damon_pa_cache_gen s"
  using assms pageout_scan_cache [of pf "ar_start r" "ar_end r" "([], s)"]
  by (auto simp: damon_pa_apply_scheme_def Let_def split: if_splits option.splits prod.splits)

lemma reachable_mkold_inv: "reachable pf s \<Longrightarrow> mkold_inv s"
proof (induction rule: reachable.induct)
  case (boot pgs seed)
  show ?case by (rule mkold_inv_boot)
next
  case (round_begin s)
  then show ?case by (simp add: mkold_inv_round_begin)
next
  case (prepare s r)
  then show ?case by (simp add: mkold_inv_prepare)
next
  case (check s r)
  then show ?case by (simp add: mkold_inv_check)
next
  case (apply_scheme s r sch n s')
  then show ?case using apply_scheme_cache [of pf r sch s n s'] by (simp add: mkold_inv_def)
next
  case (touch s pgs)
  then show ?case by (simp add: mkold_inv_def)
qed

lemma mkold_inv_live:
  "mkold_inv s \<Longrightarrow> damon_pa_cache_gen s \<noteq> 0 \<Longrightarrow> i < unat DAMON_PA_CACHE_SIZE \<Longrightarrow> live s i
     \<Longrightarrow> mkold_done (damon_pa_cache s i)"
  by (simp add: mkold_inv_def live_def)

lemma mkold_cached_iff:
  assumes "mkold_inv s" "damon_pa_cache_gen s \<noteq> 0"
  shows "mkold_cached pf s p \<longleftrightarrow> damon_pa_cache_lookup pf s p \<noteq> None"
proof (cases "damon_pa_cache_lookup pf s p")
  case None
  then show ?thesis by (simp add: mkold_cached_def)
next
  case (Some j)
  then have "mkold_done (damon_pa_cache s j)"
    using assms lookup_Some [OF Some] by (simp add: mkold_inv_live)
  with Some show ?thesis by (simp add: mkold_cached_def)
qed

lemma prepare_hit_trace:
  assumes "mkold_cached pf (s\<lparr>rng := snd (damon_rand pf (rng s) (ar_start r) (ar_end r))\<rparr>)
             (PHYS_PFN pf (fst (damon_rand pf (rng s) (ar_start r) (ar_end r))))"
  shows "trace (snd (damon_pa_prepare_access_check pf r s)) = trace s"
  using assms by (simp add: damon_pa_prepare_access_check_def Let_def case_prod_beta)

lemma lookup_rng [simp]: "damon_pa_cache_lookup pf (s\<lparr>rng := g\<rparr>) p = damon_pa_cache_lookup pf s p"
proof -
  have "lookup_probes pf (s\<lparr>rng := g\<rparr>) p is = lookup_probes pf s p is" for "is"
    by (induction "is") (simp_all add: Let_def)
  then show ?thesis by (simp add: damon_pa_cache_lookup_def)
qed

lemma mkold_cached_rng [simp]: "mkold_cached pf (s\<lparr>rng := g\<rparr>) p = mkold_cached pf s p"
  by (simp add: mkold_cached_def split: option.splits)

text \<open>
  Claim C10. In every reachable state in which a round has begun (the generation is not
  0), every live entry has \<open>mkold_done\<close> set, since every write sets it, whichever phase
  makes it. So the test of the prepare phase, a live entry with \<open>mkold_done\<close>, holds
  exactly when the lookup finds an entry; after any write for a frame (the hot-check path's
  writes included) the test holds for that frame; and a region whose sample frame the
  lookup finds is prepared without a call of \<^verbatim>\<open>damon_pa_mkold\<close>.
\<close>

theorem live_entries_cold_marked:
  assumes "reachable pf s" and "damon_pa_cache_gen s \<noteq> 0"
  shows "(\<forall>i<unat DAMON_PA_CACHE_SIZE. live s i \<longrightarrow> mkold_done (damon_pa_cache s i))
       \<and> (\<forall>p. mkold_cached pf s p \<longleftrightarrow> damon_pa_cache_lookup pf s p \<noteq> None)
       \<and> (\<forall>p sz acc. mkold_cached pf (cache_store pf p sz acc s) p)
       \<and> (\<forall>r. damon_pa_cache_lookup pf s
                  (PHYS_PFN pf (fst (damon_rand pf (rng s) (ar_start r) (ar_end r)))) \<noteq> None
              \<longrightarrow> trace (snd (damon_pa_prepare_access_check pf r s)) = trace s)"
proof -
  have inv: "mkold_inv s" using assms(1) by (rule reachable_mkold_inv)
  have 1: "\<forall>i<unat DAMON_PA_CACHE_SIZE. live s i \<longrightarrow> mkold_done (damon_pa_cache s i)"
    using inv assms(2) by (simp add: mkold_inv_live)
  have 2: "\<forall>p. mkold_cached pf s p \<longleftrightarrow> damon_pa_cache_lookup pf s p \<noteq> None"
    using inv assms(2) by (simp add: mkold_cached_iff)
  have 3: "mkold_cached pf (cache_store pf p sz acc s) p" for p sz acc
  proof -
    have "mkold_inv (cache_store pf p sz acc s)" using inv by (rule mkold_inv_cache_store)
    then show ?thesis using assms(2) by (simp add: mkold_cached_iff cache_store_lookup)
  qed
  have 4: "trace (snd (damon_pa_prepare_access_check pf r s)) = trace s"
    if "damon_pa_cache_lookup pf s
          (PHYS_PFN pf (fst (damon_rand pf (rng s) (ar_start r) (ar_end r)))) \<noteq> None" for r
  proof (rule prepare_hit_trace)
    show "mkold_cached pf (s\<lparr>rng := snd (damon_rand pf (rng s) (ar_start r) (ar_end r))\<rparr>)
             (PHYS_PFN pf (fst (damon_rand pf (rng s) (ar_start r) (ar_end r))))"
      using that 2 by simp
  qed
  show ?thesis using 1 2 3 4 by blast
qed

lemma round_begin_funpow:
  "damon_pa_cache_gen s \<noteq> 0 \<Longrightarrow> unat (damon_pa_cache_gen s) + n < 2 ^ 64 \<Longrightarrow>
     (damon_pa_cache_round_begin ^^ n) s
       = s\<lparr>damon_pa_cache_gen := damon_pa_cache_gen s + of_nat n\<rparr>"
proof (induction n)
  case 0
  then show ?case by simp
next
  case (Suc n)
  have "unat (damon_pa_cache_gen s + of_nat n + 1) = unat (damon_pa_cache_gen s) + n + 1"
    using Suc.prems(2) by (simp add: unat_word_ariths unat_of_nat)
  then have "damon_pa_cache_gen s + of_nat n + 1 \<noteq> 0"
    by (metis add_is_0 unat_0 zero_neq_one)
  with Suc show ?case
    by (simp add: damon_pa_cache_round_begin_def Let_def add.assoc)
qed

lemma round1_gen: "damon_pa_cache_gen round1_state = 1"
  by code_simp

text \<open>
  Claim C6 as stated fails once the generation counter has gone round. The first round
  after boot caches frame 1 in slot 97 with generation 1. After 18446744073709551614
  further rounds that leave the slot alone the counter stands at its largest value; the
  next \<^verbatim>\<open>damon_pa_cache_round_begin\<close> skips 0, makes 1 current again, and the lookup of
  frame 1 finds the entry of the first round.
\<close>

theorem round_begin_lookup_wrap_counterexample:
  "damon_pa_cache_lookup pf4k
     (damon_pa_cache_round_begin
        ((damon_pa_cache_round_begin ^^ 18446744073709551614) round1_state)) 1 = Some 97"
proof -
  have "(damon_pa_cache_round_begin ^^ 18446744073709551614) round1_state
          = round1_state\<lparr>damon_pa_cache_gen :=
              damon_pa_cache_gen round1_state + of_nat 18446744073709551614\<rparr>"
    by (rule round_begin_funpow) (simp_all add: round1_gen)
  moreover have "damon_pa_cache_gen round1_state + of_nat 18446744073709551614 = - 1"
    by (simp add: round1_gen)
  moreover have "damon_pa_cache_lookup pf4k
     (damon_pa_cache_round_begin (round1_state\<lparr>damon_pa_cache_gen := - 1\<rparr>)) 1 = Some 97"
    by code_simp
  ultimately show ?thesis by (simp only:)
qed

text \<open>
  Claim C10, witness: the state after preparing one region in the first round; its entry
  for frame 1 in slot 97 is live and cold-marked, and preparing the region again calls
  nothing.
\<close>

theorem live_entries_cold_marked_witness:
  "reachable pf4k prepared_state \<and> damon_pa_cache_gen prepared_state \<noteq> 0
   \<and> live prepared_state 97 \<and> mkold_done (damon_pa_cache prepared_state 97)
   \<and> mkold_cached pf4k prepared_state 1
   \<and> damon_pa_cache_lookup pf4k prepared_state 1 = Some 97
   \<and> trace (snd (damon_pa_prepare_access_check pf4k region_1 prepared_state))
       = trace prepared_state"
proof -
  have r: "reachable pf4k prepared_state"
    unfolding prepared_state_def by (intro reachable.prepare reachable.round_begin reachable.boot)
  have g: "damon_pa_cache_gen prepared_state \<noteq> 0" by code_simp
  have l: "live prepared_state 97" by code_simp
  have k: "damon_pa_cache_lookup pf4k prepared_state 1 = Some 97" by code_simp
  have d: "PHYS_PFN pf4k (fst (damon_rand pf4k (rng prepared_state) (ar_start region_1)
             (ar_end region_1))) = 1" by code_simp
  have n: "(97 :: nat) < unat DAMON_PA_CACHE_SIZE" by (simp add: cache_size_unat)
  note t = live_entries_cold_marked [OF r g]
  have 1: "mkold_done (damon_pa_cache prepared_state 97)"
    using t n l by blast
  have 2: "mkold_cached pf4k prepared_state 1"
    using t k by simp
  have "damon_pa_cache_lookup pf4k prepared_state
          (PHYS_PFN pf4k (fst (damon_rand pf4k (rng prepared_state) (ar_start region_1)
             (ar_end region_1)))) \<noteq> None"
    by (simp only: d k) simp
  with t have 3: "trace (snd (damon_pa_prepare_access_check pf4k region_1 prepared_state))
       = trace prepared_state" by blast
  show ?thesis using r g l 1 2 k 3 by blast
qed

subsection \<open>The hot test, the maximum and the reclaim executor\<close>

text \<open>
  Claim C1 as stated fails. The page of frame 1 is not mapped and its idle flag is clear
  (it was touched after the prepare phase set it): \<^verbatim>\<open>damon_pa_young\<close> reports it accessed and
  \<^verbatim>\<open>__damon_pa_check_access\<close> increments \<open>nr_accesses\<close> of the region from 0 to 1.
\<close>

theorem unmapped_frame_counterexample:
  "pages unmapped_touched_state (PHYS_PFN pf4k (sampling_addr region_1_sampled))
     = Some page_unmapped_touched
   \<and> \<not> pg_mapped page_unmapped_touched
   \<and> damon_pa_young pf4k unmapped_touched_state (sampling_addr region_1_sampled) (PAGE_SIZE pf4k)
       = (True, 4096)
   \<and> nr_accesses region_1_sampled = 0
   \<and> nr_accesses (fst (damon_pa_check_access pf4k region_1_sampled unmapped_touched_state)) = 1"
  by code_simp

text \<open>
  Claim C1, as amended. For a frame whose page is not mapped or not reverse-mappable,
  \<^verbatim>\<open>damon_pa_young\<close> reports the base page size and \<open>accessed\<close> false exactly when the
  idle flag of the page is set; a region whose hot-test runs on such a frame (the cache
  holds no resolved entry for it) has \<open>nr_accesses\<close> incremented exactly when the flag is
  clear.
\<close>

theorem unmapped_frame_hot_test:
  assumes "pages s (PHYS_PFN pf (sampling_addr r)) = Some pg"
    and "\<not> pg_mapped pg \<or> \<not> pg_rmapping pg"
  shows "damon_pa_young pf s (sampling_addr r) sz0 = (\<not> pg_idle pg, PAGE_SIZE pf)
       \<and> (young_cached pf s (PHYS_PFN pf (sampling_addr r)) = None \<longrightarrow>
            fst (damon_pa_check_access pf r s) = count_access (\<not> pg_idle pg) r)"
proof -
  have y: "damon_pa_young pf s (sampling_addr r) sz0 = (\<not> pg_idle pg, PAGE_SIZE pf)" for sz0
    using assms by (auto simp: damon_pa_young_def)
  have "fst (damon_pa_check_access pf r s) = count_access (\<not> pg_idle pg) r"
    if "young_cached pf s (PHYS_PFN pf (sampling_addr r)) = None"
    using check_access_miss [OF that y] by simp
  with y show ?thesis by blast
qed

text \<open>
  Claim C1, witness: the touched unmapped page of frame 1.
\<close>

theorem unmapped_frame_hot_test_witness:
  "pages unmapped_touched_state (PHYS_PFN pf4k (sampling_addr region_1_sampled))
     = Some page_unmapped_touched
   \<and> \<not> pg_mapped page_unmapped_touched
   \<and> young_cached pf4k unmapped_touched_state (PHYS_PFN pf4k (sampling_addr region_1_sampled)) = None
   \<and> damon_pa_young pf4k unmapped_touched_state (sampling_addr region_1_sampled) 0
       = (\<not> pg_idle page_unmapped_touched, PAGE_SIZE pf4k)
   \<and> fst (damon_pa_check_access pf4k region_1_sampled unmapped_touched_state)
       = count_access (\<not> pg_idle page_unmapped_touched) region_1_sampled"
proof -
  have p: "pages unmapped_touched_state (PHYS_PFN pf4k (sampling_addr region_1_sampled))
     = Some page_unmapped_touched" by code_simp
  have m: "\<not> pg_mapped page_unmapped_touched" by code_simp
  have c: "young_cached pf4k unmapped_touched_state
             (PHYS_PFN pf4k (sampling_addr region_1_sampled)) = None" by code_simp
  have m': "\<not> pg_mapped page_unmapped_touched \<or> \<not> pg_rmapping page_unmapped_touched"
    using m by simp
  show ?thesis using unmapped_frame_hot_test [OF p m', of 0] p m c by blast
qed

lemma check_access_found:
  "fst (damon_pa_check_access pf r s) = count_access (found_accessed pf r s) r"
  by (simp add: damon_pa_check_access_def found_accessed_def Let_def case_prod_beta
           split: option.splits)

lemma check_regions_max:
  "fst (snd (check_regions pf rs m s))
     = Max (insert m (nr_accesses ` set (fst (check_regions pf rs m s))))"
proof (induction rs arbitrary: m s)
  case Nil
  show ?case by simp
next
  case (Cons r rs)
  obtain r' s1 where st: "damon_pa_check_access pf r s = (r', s1)"
    by (cases "damon_pa_check_access pf r s")
  let ?m1 = "max (nr_accesses r') m"
  obtain rs' m2 s2 where rec: "check_regions pf rs ?m1 s1 = (rs', m2, s2)"
    by (cases "check_regions pf rs ?m1 s1")
  have "m2 = Max (insert ?m1 (nr_accesses ` set rs'))"
    using Cons.IH [of ?m1 s1] rec by simp
  also have "\<dots> = Max (insert m (insert (nr_accesses r') (nr_accesses ` set rs')))"
  proof -
    have "Max (insert (max (nr_accesses r') m) (nr_accesses ` set rs'))
            = max (max (nr_accesses r') m) (Max (insert (max (nr_accesses r') m) (nr_accesses ` set rs')))"
      by (simp add: max_def)
    show ?thesis
      by (cases "set rs' = {}") (simp_all add: max.commute max.assoc Max_insert)
  qed
  finally show ?case using st rec by simp
qed

lemma check_regions_state:
  "snd (snd (check_regions pf rs m s)) = snd (snd (check_regions pf rs m' s))"
  by (induction rs arbitrary: m m' s) (simp_all add: case_prod_beta Let_def)

lemma check_regions_found:
  "fst (check_regions pf rs m s) = map2 count_access (found_regions pf rs s) rs"
  by (induction rs arbitrary: m s) (simp_all add: case_prod_beta Let_def check_access_found)

lemma check_targets_found:
  "fst (check_targets pf ts m s) = map2 (map2 count_access) (found_targets pf ts s) ts"
proof (induction ts arbitrary: m s)
  case Nil
  show ?case by simp
next
  case (Cons t ts)
  have "snd (snd (check_regions pf t m s)) = snd (snd (check_regions pf t 0 s))"
    by (rule check_regions_state)
  then show ?case
    by (simp add: case_prod_beta Let_def check_regions_found Cons.IH)
qed

lemma Max_insert_Max:
  fixes m :: "'a :: linorder"
  assumes "finite A" and "finite B"
  shows "Max (insert (Max (insert m A)) B) = Max (insert m (A \<union> B))"
proof (cases "B = {}")
  case True
  then show ?thesis by simp
next
  case False
  have "Max (insert m (A \<union> B)) = Max (insert m A \<union> B)" by simp
  also have "\<dots> = max (Max (insert m A)) (Max B)"
    using assms False by (intro Max_Un) simp_all
  also have "\<dots> = Max (insert (Max (insert m A)) B)"
    using assms False by simp
  finally show ?thesis by simp
qed

lemma check_targets_max:
  "fst (snd (check_targets pf ts m s))
     = Max (insert m (nr_accesses ` set (concat (fst (check_targets pf ts m s)))))"
proof (induction ts arbitrary: m s)
  case Nil
  show ?case by simp
next
  case (Cons t ts)
  obtain t' m1 s1 where st: "check_regions pf t m s = (t', m1, s1)"
    by (cases "check_regions pf t m s")
  obtain ts' m2 s2 where rec: "check_targets pf ts m1 s1 = (ts', m2, s2)"
    by (cases "check_targets pf ts m1 s1")
  have m1: "m1 = Max (insert m (nr_accesses ` set t'))"
    using check_regions_max [of pf t m s] st by simp
  have "m2 = Max (insert m1 (nr_accesses ` set (concat ts')))"
    using Cons.IH [of m1 s1] rec by simp
  also have "\<dots> = Max (insert m (nr_accesses ` set t' \<union> nr_accesses ` set (concat ts')))"
    unfolding m1 by (rule Max_insert_Max) simp_all
  also have "nr_accesses ` set t' \<union> nr_accesses ` set (concat ts')
               = nr_accesses ` set (concat (t' # ts'))"
    by (simp add: image_Un)
  finally show ?case using st rec by simp
qed

text \<open>
  Claim C7. \<^verbatim>\<open>damon_pa_check_accesses\<close> returns the maximum of \<open>nr_accesses\<close> over all the
  regions of all the targets as it leaves them (0 when there is none), and it leaves every
  region with \<open>nr_accesses\<close> incremented by one if its sample frame was found accessed
  when the region was visited, and unchanged if not.
\<close>

theorem check_accesses_returns_max:
  "fst (snd (damon_pa_check_accesses pf ctx s))
     = Max (insert 0 (nr_accesses ` set (concat (fst (damon_pa_check_accesses pf ctx s)))))
   \<and> fst (damon_pa_check_accesses pf ctx s)
       = map2 (map2 count_access) (found_targets pf ctx s) ctx"
  unfolding damon_pa_check_accesses_def
  using check_targets_max [of pf ctx 0 s] check_targets_found [of pf ctx 0 s] by blast

text \<open>
  Claim C7, witness: two targets with three regions; the counters end as 1, 6 and 0 and
  the maximum is 6.
\<close>

theorem check_accesses_returns_max_witness:
  "Max (insert 0 (nr_accesses ` set (concat
          (fst (damon_pa_check_accesses pf4k two_targets unmapped_touched_state))))) = 6
   \<and> found_targets pf4k two_targets unmapped_touched_state = [[True], [True, False]]
   \<and> map nr_accesses (concat (fst (damon_pa_check_accesses pf4k two_targets unmapped_touched_state)))
       = [1, 6, 0]"
proof -
  have 1: "fst (snd (damon_pa_check_accesses pf4k two_targets unmapped_touched_state)) = 6"
    by code_simp
  have 2: "found_targets pf4k two_targets unmapped_touched_state = [[True], [True, False]]"
    by code_simp
  have 3: "map nr_accesses (concat (map2 (map2 count_access) [[True], [True, False]] two_targets))
       = [1, 6, 0]"
    by code_simp
  note t = check_accesses_returns_max [of pf4k two_targets unmapped_touched_state]
  have a: "Max (insert 0 (nr_accesses ` set (concat
          (fst (damon_pa_check_accesses pf4k two_targets unmapped_touched_state))))) = 6"
    using conjunct1 [OF t, symmetric] 1 by (rule trans)
  have b: "map nr_accesses
            (concat (fst (damon_pa_check_accesses pf4k two_targets unmapped_touched_state)))
       = [1, 6, 0]"
    by (simp only: conjunct2 [OF t] 2 3)
  show ?thesis using a 2 b by blast
qed

lemma unat_PAGE_SIZE: "PAGE_SHIFT pf < 64 \<Longrightarrow> unat (PAGE_SIZE pf) = 2 ^ PAGE_SHIFT pf"
proof -
  assume a: "PAGE_SHIFT pf < 64"
  have "unat (push_bit (PAGE_SHIFT pf) (1 :: ulong))
          = take_bit LENGTH(64) (push_bit (PAGE_SHIFT pf) (unat (1 :: ulong)))"
    by (rule unsigned_push_bit_eq)
  also have "\<dots> = take_bit 64 ((2 :: nat) ^ PAGE_SHIFT pf)"
    by (simp only: unat_1 push_bit_of_1) simp
  also have "\<dots> = 2 ^ PAGE_SHIFT pf"
  proof -
    have "(2 :: nat) ^ PAGE_SHIFT pf < 2 ^ 64"
      using a by (rule power_strict_increasing) simp
    then show ?thesis by (simp only: take_bit_nat_eq_self_iff)
  qed
  finally show ?thesis by (simp only: PAGE_SIZE_def)
qed

lemma nr_pages_step:
  fixes a e P :: nat
  assumes "a < e" and "0 < P"
  shows "(e - a + P - 1) div P = Suc (if a + P < e then (e - (a + P) + P - 1) div P else 0)"
proof -
  obtain x where x: "e = a + Suc x"
    using assms(1) by (metis less_imp_Suc_add add_Suc_right)
  have "e - a + P - 1 = x + P" unfolding x by simp
  moreover have "(x + P) div P = Suc (x div P)"
    using div_add_self2 [of P x] assms(2) by simp
  ultimately have d: "(e - a + P - 1) div P = Suc (x div P)"
    by (simp only:)
  show ?thesis
  proof (cases "a + P < e")
    case True
    then have "e - (a + P) + P - 1 = x" unfolding x by arith
    with d True show ?thesis by (simp only: if_True)
  next
    case False
    then have "x < P" unfolding x by arith
    then have "x div P = 0" by simp
    with d False show ?thesis by (simp only: if_False)
  qed
qed

lemma pageout_scan_total:
  assumes ps: "0 < unat (PAGE_SIZE pf)" and e: "unat e + unat (PAGE_SIZE pf) \<le> 2 ^ 64"
  shows "pageout_scan pf a e st = Some (scan_pages pf (nr_pages pf a e) a st)"
proof (induction "unat e - unat a" arbitrary: a st rule: less_induct)
  case less
  show ?case
  proof (cases "a < e")
    case False
    then show ?thesis by (subst pageout_scan.simps) (simp add: nr_pages_def)
  next
    case True
    then have ae: "unat a < unat e" by (simp add: word_less_nat_alt)
    then have "unat a + unat (PAGE_SIZE pf) < 2 ^ LENGTH(64)" using e by simp
    then have u: "unat (a + PAGE_SIZE pf) = unat a + unat (PAGE_SIZE pf)"
      by (rule unat_add_lem [THEN iffD1])
    have "unat e - unat (a + PAGE_SIZE pf) < unat e - unat a" using u ae ps by simp
    from less [OF this] have IH:
      "pageout_scan pf (a + PAGE_SIZE pf) e (scan_page pf a st)
         = Some (scan_pages pf (nr_pages pf (a + PAGE_SIZE pf) e) (a + PAGE_SIZE pf)
                   (scan_page pf a st))" .
    have n: "nr_pages pf a e = Suc (nr_pages pf (a + PAGE_SIZE pf) e)"
    proof -
      have l: "nr_pages pf a e
                 = (unat e - unat a + unat (PAGE_SIZE pf) - 1) div unat (PAGE_SIZE pf)"
        using True by (simp only: nr_pages_def if_True)
      have r: "nr_pages pf (a + PAGE_SIZE pf) e
                 = (if unat a + unat (PAGE_SIZE pf) < unat e
                    then (unat e - (unat a + unat (PAGE_SIZE pf)) + unat (PAGE_SIZE pf) - 1)
                           div unat (PAGE_SIZE pf)
                    else 0)"
        by (simp only: nr_pages_def word_less_nat_alt u)
      show ?thesis unfolding l r by (rule nr_pages_step [OF ae ps])
    qed
    have "pageout_scan pf a e st = pageout_scan pf (a + PAGE_SIZE pf) e (scan_page pf a st)"
      using True by (subst pageout_scan.simps) (simp only: if_True)
    also note IH
    finally show ?thesis by (simp only: n scan_pages.simps)
  qed
qed

lemma scan_page_events:
  "trace (snd (scan_page pf a st)) = trace (snd st) @ scan_events pf (snd st) a"
  by (simp add: scan_page_def scan_events_def Let_def split: option.splits)

lemma scan_events_no_yield: "CondResched \<notin> set (scan_events pf s a)"
  by (simp add: scan_events_def Let_def split: option.splits)

lemma scan_events_one_lookup: "length (filter is_GetPage (scan_events pf s a)) = 1"
  by (simp add: scan_events_def Let_def is_GetPage_def split: option.splits)

lemma scan_page_trace:
  "\<exists>evs. trace (snd (scan_page pf a st)) = trace (snd st) @ evs \<and> CondResched \<notin> set evs
         \<and> length (filter is_GetPage evs) = 1"
  using scan_page_events scan_events_no_yield scan_events_one_lookup by blast

lemma scan_pages_trace:
  "\<exists>evs. trace (snd (scan_pages pf n a st)) = trace (snd st) @ evs \<and> CondResched \<notin> set evs
         \<and> length (filter is_GetPage evs) = n"
proof (induction n arbitrary: a st)
  case 0
  show ?case by simp
next
  case (Suc n)
  obtain e1 where e1: "trace (snd (scan_page pf a st)) = trace (snd st) @ e1"
      "CondResched \<notin> set e1" "length (filter is_GetPage e1) = 1"
    using scan_page_trace by blast
  obtain e2 where e2: "trace (snd (scan_pages pf n (a + PAGE_SIZE pf) (scan_page pf a st)))
        = trace (snd (scan_page pf a st)) @ e2"
      "CondResched \<notin> set e2" "length (filter is_GetPage e2) = n"
    using Suc.IH by blast
  have "trace (snd (scan_pages pf (Suc n) a st)) = trace (snd st) @ (e1 @ e2)"
    using e1 e2 by simp
  moreover have "CondResched \<notin> set (e1 @ e2)" using e1 e2 by simp
  moreover have "length (filter is_GetPage (e1 @ e2)) = Suc n" using e1 e2 by simp
  ultimately show ?case by blast
qed

lemma scan_page_list:
  "fst (scan_page pf a st) =
     (if evictable (snd st) (PHYS_PFN pf a) then PHYS_PFN pf a # fst st else fst st)"
  by (simp add: scan_page_def Let_def evictable_def split: option.splits)

lemma scan_page_evictable [simp]:
  "evictable (snd (scan_page pf a st)) p = evictable (snd st) p"
  by (simp add: evictable_def)

lemma scan_pages_list:
  "set (fst (scan_pages pf n a st)) \<subseteq> set (fst st) \<union> {p. evictable (snd st) p}"
proof (induction n arbitrary: a st)
  case 0
  show ?case by simp
next
  case (Suc n)
  have 1: "set (fst (scan_pages pf (Suc n) a st))
           \<subseteq> set (fst (scan_page pf a st)) \<union> {p. evictable (snd st) p}"
    using Suc.IH [of "a + PAGE_SIZE pf" "scan_page pf a st"] by simp
  have 2: "set (fst (scan_page pf a st)) \<subseteq> set (fst st) \<union> {p. evictable (snd st) p}"
    by (simp add: scan_page_list subset_insertI)
  from 1 2 show ?case by blast
qed

lemma apply_scheme_pageout:
  assumes "action scheme = DAMOS_PAGEOUT" and "PAGE_SHIFT pf < 64"
    and "unat (ar_end r) + unat (PAGE_SIZE pf) \<le> 2 ^ 64"
  shows "damon_pa_apply_scheme pf r scheme s =
     (let st = scan_pages pf (nr_pages pf (ar_start r) (ar_end r)) (ar_start r) ([], s)
      in Some (reclaim_pages pf (fst st) * PAGE_SIZE pf,
               log CondResched (log (ReclaimPages (fst st)) (snd st))))"
proof -
  have "0 < unat (PAGE_SIZE pf)" using assms(2) by (simp add: unat_PAGE_SIZE)
  from pageout_scan_total [OF this assms(3)] show ?thesis
    using assms(1) by (simp add: damon_pa_apply_scheme_def Let_def case_prod_beta)
qed

lemma apply_scheme_trace:
  assumes "action scheme = DAMOS_PAGEOUT" and "range_ok pf r"
  shows "\<exists>n s' evs l. damon_pa_apply_scheme pf r scheme s = Some (n, s')
           \<and> trace s' = trace s @ evs @ [ReclaimPages l, CondResched]
           \<and> CondResched \<notin> set evs
           \<and> length (filter is_GetPage evs) = nr_pages pf (ar_start r) (ar_end r)"
proof -
  let ?st = "scan_pages pf (nr_pages pf (ar_start r) (ar_end r)) (ar_start r) ([], s)"
  obtain evs where evs: "trace (snd ?st) = trace s @ evs" "CondResched \<notin> set evs"
      "length (filter is_GetPage evs) = nr_pages pf (ar_start r) (ar_end r)"
    using scan_pages_trace [of pf "nr_pages pf (ar_start r) (ar_end r)" "ar_start r" "([], s)"]
    by auto
  have a: "damon_pa_apply_scheme pf r scheme s =
      Some (reclaim_pages pf (fst ?st) * PAGE_SIZE pf,
            log CondResched (log (ReclaimPages (fst ?st)) (snd ?st)))"
    using apply_scheme_pageout [of scheme pf r s] assms by (simp add: range_ok_def Let_def)
  have "trace (log CondResched (log (ReclaimPages (fst ?st)) (snd ?st)))
          = trace s @ evs @ [ReclaimPages (fst ?st), CondResched]"
    using evs(1) by simp
  with a evs(2,3) show ?thesis by blast
qed

text \<open>
  Claim C8, as amended. For the pageout action on a region whose scan cannot wrap,
  \<^verbatim>\<open>damon_pa_apply_scheme\<close> returns, and \<^verbatim>\<open>cond_resched\<close> is called exactly once, as the
  last call, after the whole range has been scanned (one frame lookup for each page of the
  region) and the list handed to \<^verbatim>\<open>reclaim_pages\<close>: no yield happens during the scan,
  however many frames the region spans. For any other action nothing is called.
\<close>

theorem apply_scheme_yields_once:
  "(action scheme = DAMOS_PAGEOUT \<and> range_ok pf r \<longrightarrow>
      (\<exists>n s' evs l. damon_pa_apply_scheme pf r scheme s = Some (n, s')
           \<and> trace s' = trace s @ evs @ [ReclaimPages l, CondResched]
           \<and> CondResched \<notin> set evs
           \<and> length (filter is_GetPage evs) = nr_pages pf (ar_start r) (ar_end r)))
   \<and> (action scheme \<noteq> DAMOS_PAGEOUT \<longrightarrow>
        (\<exists>n s'. damon_pa_apply_scheme pf r scheme s = Some (n, s') \<and> trace s' = trace s))"
  using apply_scheme_trace [of scheme pf r s] by (simp add: damon_pa_apply_scheme_def)

lemma nr_pages_1g: "nr_pages pf4k (ar_start region_1g) (ar_end region_1g) = 262144"
  by (simp add: nr_pages_def region_1g_def PAGE_SIZE_def pf4k_def)

lemma range_ok_1g: "range_ok pf4k region_1g"
  by (simp add: range_ok_def region_1g_def PAGE_SIZE_def pf4k_def)

text \<open>
  Claim C8 as stated fails. On a region of 1 GiB the scan looks up 262144 frames without
  one \<^verbatim>\<open>cond_resched\<close>; the only yield is the last call of the function.
\<close>

theorem apply_scheme_no_periodic_yield_counterexample:
  "\<exists>n s' evs l. damon_pa_apply_scheme pf4k region_1g pageout (boot_state no_pages 0) = Some (n, s')
      \<and> trace s' = evs @ [ReclaimPages l, CondResched]
      \<and> CondResched \<notin> set evs
      \<and> length (filter is_GetPage evs) = 262144"
proof -
  have "action pageout = DAMOS_PAGEOUT" by (simp add: pageout_def)
  from apply_scheme_trace [OF this range_ok_1g, of "boot_state no_pages 0"]
  show ?thesis by (simp add: nr_pages_1g boot_state_def)
qed

text \<open>
  Claim C8, witness: a region of two pages.
\<close>

theorem apply_scheme_yields_once_witness:
  "action pageout = DAMOS_PAGEOUT \<and> range_ok pf4k region_2p
   \<and> (\<exists>n s' evs l. damon_pa_apply_scheme pf4k region_2p pageout (boot_state no_pages 0)
          = Some (n, s')
        \<and> trace s' = trace (boot_state no_pages 0) @ evs @ [ReclaimPages l, CondResched]
        \<and> CondResched \<notin> set evs
        \<and> length (filter is_GetPage evs) = 2)"
proof -
  have a: "action pageout = DAMOS_PAGEOUT" by (simp add: pageout_def)
  have r: "range_ok pf4k region_2p"
    by (simp add: range_ok_def region_2p_def PAGE_SIZE_def pf4k_def)
  have n: "nr_pages pf4k (ar_start region_2p) (ar_end region_2p) = 2"
    by (simp add: nr_pages_def region_2p_def PAGE_SIZE_def pf4k_def)
  from apply_scheme_yields_once [of pageout pf4k region_2p "boot_state no_pages 0"] a r
  have "\<exists>n s' evs l. damon_pa_apply_scheme pf4k region_2p pageout (boot_state no_pages 0)
          = Some (n, s')
        \<and> trace s' = trace (boot_state no_pages 0) @ evs @ [ReclaimPages l, CondResched]
        \<and> CondResched \<notin> set evs
        \<and> length (filter is_GetPage evs)
            = nr_pages pf4k (ar_start region_2p) (ar_end region_2p)"
    by blast
  with a r show ?thesis by (simp only: n)
qed

text \<open>
  Claim C9, as amended. For an action other than pageout \<^verbatim>\<open>damon_pa_apply_scheme\<close>
  returns 0 and leaves the state as it was: no frame is looked up, no reference cleared,
  no page isolated. For the pageout action on a region whose scan cannot wrap (its end
  lies at least one page below \<open>2 ^ 64\<close>), it returns the number of pages that
  \<^verbatim>\<open>reclaim_pages\<close> reclaimed from the list of isolated evictable pages, multiplied by the
  page size; and on any region, whenever the pageout call returns, that is the value.
\<close>

theorem apply_scheme_result:
  "(action scheme \<noteq> DAMOS_PAGEOUT \<longrightarrow> damon_pa_apply_scheme pf r scheme s = Some (0, s))
   \<and> (action scheme = DAMOS_PAGEOUT \<and> range_ok pf r \<longrightarrow>
        (\<exists>page_list s1.
           pageout_scan pf (ar_start r) (ar_end r) ([], s) = Some (page_list, s1)
           \<and> set page_list \<subseteq> {p. evictable s p}
           \<and> damon_pa_apply_scheme pf r scheme s
               = Some (reclaim_pages pf page_list * PAGE_SIZE pf,
                       log CondResched (log (ReclaimPages page_list) s1))))
   \<and> (action scheme = DAMOS_PAGEOUT \<longrightarrow>
        (\<forall>n s'. damon_pa_apply_scheme pf r scheme s = Some (n, s') \<longrightarrow>
           (\<exists>page_list s1.
              pageout_scan pf (ar_start r) (ar_end r) ([], s) = Some (page_list, s1)
              \<and> n = reclaim_pages pf page_list * PAGE_SIZE pf
              \<and> s' = log CondResched (log (ReclaimPages page_list) s1))))"
proof -
  have 3: "\<exists>page_list s1.
              pageout_scan pf (ar_start r) (ar_end r) ([], s) = Some (page_list, s1)
              \<and> n = reclaim_pages pf page_list * PAGE_SIZE pf
              \<and> s' = log CondResched (log (ReclaimPages page_list) s1)"
    if "action scheme = DAMOS_PAGEOUT" and "damon_pa_apply_scheme pf r scheme s = Some (n, s')"
    for n s'
    using that
    by (cases "pageout_scan pf (ar_start r) (ar_end r) ([], s)")
       (auto simp: damon_pa_apply_scheme_def Let_def)
  have 1: "action scheme \<noteq> DAMOS_PAGEOUT \<Longrightarrow>
             damon_pa_apply_scheme pf r scheme s = Some (0, s)"
    by (simp add: damon_pa_apply_scheme_def)
  have 2: "\<exists>page_list s1.
           pageout_scan pf (ar_start r) (ar_end r) ([], s) = Some (page_list, s1)
           \<and> set page_list \<subseteq> {p. evictable s p}
           \<and> damon_pa_apply_scheme pf r scheme s
               = Some (reclaim_pages pf page_list * PAGE_SIZE pf,
                       log CondResched (log (ReclaimPages page_list) s1))"
    if a: "action scheme = DAMOS_PAGEOUT" and ok: "range_ok pf r"
  proof -
    let ?st = "scan_pages pf (nr_pages pf (ar_start r) (ar_end r)) (ar_start r) ([], s)"
    have ps: "0 < unat (PAGE_SIZE pf)" using ok by (simp add: range_ok_def unat_PAGE_SIZE)
    have e: "unat (ar_end r) + unat (PAGE_SIZE pf) \<le> 2 ^ 64" using ok by (simp add: range_ok_def)
    have sc: "pageout_scan pf (ar_start r) (ar_end r) ([], s) = Some (fst ?st, snd ?st)"
      using pageout_scan_total [OF ps e, of "ar_start r" "([], s)"] by simp
    have l: "set (fst ?st) \<subseteq> {p. evictable s p}"
      using scan_pages_list [of pf "nr_pages pf (ar_start r) (ar_end r)" "ar_start r" "([], s)"]
      by simp
    have "damon_pa_apply_scheme pf r scheme s
               = Some (reclaim_pages pf (fst ?st) * PAGE_SIZE pf,
                       log CondResched (log (ReclaimPages (fst ?st)) (snd ?st)))"
      using a sc by (simp add: damon_pa_apply_scheme_def Let_def case_prod_beta)
    with sc l show ?thesis by blast
  qed
  from 1 2 3 show ?thesis by blast
qed

text \<open>
  Claim C9, witness: a region of two pages, one evictable and one not. A statistics scheme
  returns 0 and changes nothing; the pageout scheme isolates both pages, puts the
  unevictable one back, reclaims the other and returns 4096.
\<close>

theorem apply_scheme_result_witness:
  "action \<lparr>action = DAMOS_STAT\<rparr> \<noteq> DAMOS_PAGEOUT
   \<and> damon_pa_apply_scheme pf4k region_2p \<lparr>action = DAMOS_STAT\<rparr> (boot_state two_pages 0)
       = Some (0, boot_state two_pages 0)
   \<and> action pageout = DAMOS_PAGEOUT \<and> range_ok pf4k region_2p
   \<and> map_option fst (damon_pa_apply_scheme pf4k region_2p pageout (boot_state two_pages 0))
       = Some 4096
   \<and> map_option (trace \<circ> snd)
        (damon_pa_apply_scheme pf4k region_2p pageout (boot_state two_pages 0))
       = Some [GetPage 1, ClearPageReferenced 1, TestAndClearPageYoung 1, IsolateLruPage 1,
               ListAdd 1, PutPage 1,
               GetPage 2, ClearPageReferenced 2, TestAndClearPageYoung 2, IsolateLruPage 2,
               PutbackLruPage 2, ReclaimPages [1], CondResched]"
proof -
  have a: "action pageout = DAMOS_PAGEOUT" by (simp add: pageout_def)
  have r: "range_ok pf4k region_2p"
    by (simp add: range_ok_def region_2p_def PAGE_SIZE_def pf4k_def)
  have n: "nr_pages pf4k (ar_start region_2p) (ar_end region_2p) = 2"
    by (simp add: nr_pages_def region_2p_def PAGE_SIZE_def pf4k_def)
  have st: "action \<lparr>action = DAMOS_STAT\<rparr> \<noteq> DAMOS_PAGEOUT" by simp
  note t = apply_scheme_result [of "\<lparr>action = DAMOS_STAT\<rparr>" pf4k region_2p "boot_state two_pages 0"]
  have 1: "damon_pa_apply_scheme pf4k region_2p \<lparr>action = DAMOS_STAT\<rparr> (boot_state two_pages 0)
       = Some (0, boot_state two_pages 0)"
    using t st by blast
  have ps: "0 < unat (PAGE_SIZE pf4k)" by (simp add: PAGE_SIZE_def pf4k_def)
  have e: "unat (ar_end region_2p) + unat (PAGE_SIZE pf4k) \<le> 2 ^ 64"
    by (simp add: region_2p_def PAGE_SIZE_def pf4k_def)
  have sc: "pageout_scan pf4k (ar_start region_2p) (ar_end region_2p) ([], boot_state two_pages 0)
      = Some (scan_pages pf4k 2 (ar_start region_2p) ([], boot_state two_pages 0))"
    using pageout_scan_total [OF ps e, of "ar_start region_2p" "([], boot_state two_pages 0)"]
    by (simp only: n)
  have ev1: "fst (scan_pages pf4k 2 (ar_start region_2p) ([], boot_state two_pages 0)) = [1]"
    by code_simp
  have ev2: "trace (snd (scan_pages pf4k 2 (ar_start region_2p) ([], boot_state two_pages 0)))
      = [GetPage 1, ClearPageReferenced 1, TestAndClearPageYoung 1, IsolateLruPage 1,
         ListAdd 1, PutPage 1,
         GetPage 2, ClearPageReferenced 2, TestAndClearPageYoung 2, IsolateLruPage 2,
         PutbackLruPage 2]"
    by code_simp
  have ap: "damon_pa_apply_scheme pf4k region_2p pageout (boot_state two_pages 0)
      = Some (reclaim_pages pf4k
                (fst (scan_pages pf4k 2 (ar_start region_2p) ([], boot_state two_pages 0)))
                * PAGE_SIZE pf4k,
              log CondResched (log (ReclaimPages
                (fst (scan_pages pf4k 2 (ar_start region_2p) ([], boot_state two_pages 0))))
                (snd (scan_pages pf4k 2 (ar_start region_2p) ([], boot_state two_pages 0)))))"
    using a sc by (simp add: damon_pa_apply_scheme_def Let_def case_prod_beta)
  have 2: "map_option fst (damon_pa_apply_scheme pf4k region_2p pageout (boot_state two_pages 0))
       = Some 4096"
    by (simp only: ap ev1) (simp add: pf4k_def PAGE_SIZE_def)
  have 3: "map_option (trace \<circ> snd)
        (damon_pa_apply_scheme pf4k region_2p pageout (boot_state two_pages 0))
       = Some [GetPage 1, ClearPageReferenced 1, TestAndClearPageYoung 1, IsolateLruPage 1,
               ListAdd 1, PutPage 1,
               GetPage 2, ClearPageReferenced 2, TestAndClearPageYoung 2, IsolateLruPage 2,
               PutbackLruPage 2, ReclaimPages [1], CondResched]"
    by (simp only: ap) (simp add: ev1 ev2)
  show ?thesis using st 1 a r 2 3 by blast
qed

subsection \<open>Deduplication and huge units\<close>

text \<open>
  Claim C3 as stated fails. The first and the sixth region sample frame 144. The four
  regions after the first fill the probe window of slot 0, the fifth finds no stale slot
  and overwrites the first slot, which held frame 144, and the sixth region calls
  \<^verbatim>\<open>damon_pa_mkold\<close> for frame 144 a second time.
\<close>

theorem prepare_dedup_eviction_counterexample:
  "map (PHYS_PFN pf4k \<circ> sampling_addr)
     (concat (fst (damon_pa_prepare_access_checks pf4k colliding_regions
                     (boot_state all_mapped 0))))
     = [144, 377, 754, 987, 1131, 144]
   \<and> trace (snd (damon_pa_prepare_access_checks pf4k colliding_regions
                    (boot_state all_mapped 0)))
     = [Mkold 0x90000, Mkold 0x179000, Mkold 0x2F2000, Mkold 0x3DB000, Mkold 0x46B000,
        Mkold 0x90000]"
  by code_simp

lemma prepare_sampling_addr:
  "sampling_addr (fst (damon_pa_prepare_access_check pf r s))
     = fst (damon_rand pf (rng s) (ar_start r) (ar_end r))"
  by (simp add: damon_pa_prepare_access_check_def Let_def case_prod_beta)

lemma prepare_gen [simp]:
  "damon_pa_cache_gen (snd (damon_pa_prepare_access_check pf r s)) = damon_pa_cache_gen s"
  by (simp add: damon_pa_prepare_access_check_def Let_def case_prod_beta)

lemma prepare_trace_cases:
  "trace (snd (damon_pa_prepare_access_check pf r s)) = trace s
   \<or> trace (snd (damon_pa_prepare_access_check pf r s))
       = trace s @ [Mkold (sampling_addr (fst (damon_pa_prepare_access_check pf r s)))]"
  by (simp add: damon_pa_prepare_access_check_def Let_def case_prod_beta)

lemma prepare_cached_after:
  assumes "mkold_inv s" and "damon_pa_cache_gen s \<noteq> 0"
  shows "mkold_cached pf (snd (damon_pa_prepare_access_check pf r s))
           (PHYS_PFN pf (sampling_addr (fst (damon_pa_prepare_access_check pf r s))))"
proof -
  obtain a g where ag: "damon_rand pf (rng s) (ar_start r) (ar_end r) = (a, g)"
    by (cases "damon_rand pf (rng s) (ar_start r) (ar_end r)")
  show ?thesis
  proof (cases "mkold_cached pf (s\<lparr>rng := g\<rparr>) (PHYS_PFN pf a)")
    case True
    then show ?thesis
      by (simp add: damon_pa_prepare_access_check_def ag Let_def)
  next
    case False
    let ?s1 = "damon_pa_mkold pf a (log (Mkold a) (s\<lparr>rng := g\<rparr>))"
    have "mkold_inv ?s1" using assms(1) by (simp add: mkold_inv_def)
    then have "mkold_inv (cache_store pf (PHYS_PFN pf a) 0 False ?s1)"
      by (rule mkold_inv_cache_store)
    moreover have "damon_pa_cache_gen (cache_store pf (PHYS_PFN pf a) 0 False ?s1) \<noteq> 0"
      using assms(2) by simp
    ultimately have "mkold_cached pf (cache_store pf (PHYS_PFN pf a) 0 False ?s1) (PHYS_PFN pf a)"
      by (simp add: mkold_cached_iff cache_store_lookup)
    with False show ?thesis
      by (simp add: damon_pa_prepare_access_check_def ag Let_def)
  qed
qed

text \<open>
  Claim C3, as amended. In a round that has begun, a region whose sample frame the lookup
  still finds is prepared without a call of \<^verbatim>\<open>damon_pa_mkold\<close>; in particular, when two
  regions that sample the same frame are visited one after the other, the second visit
  calls nothing and the two visits together call \<^verbatim>\<open>damon_pa_mkold\<close> at most once.
\<close>

theorem prepare_dedup:
  assumes "reachable pf s" and "damon_pa_cache_gen s \<noteq> 0"
  shows "(damon_pa_cache_lookup pf s
            (PHYS_PFN pf (sampling_addr (fst (damon_pa_prepare_access_check pf r s)))) \<noteq> None
          \<longrightarrow> trace (snd (damon_pa_prepare_access_check pf r s)) = trace s)
       \<and> (PHYS_PFN pf (sampling_addr (fst (damon_pa_prepare_access_check pf r2
                                              (snd (damon_pa_prepare_access_check pf r1 s)))))
            = PHYS_PFN pf (sampling_addr (fst (damon_pa_prepare_access_check pf r1 s)))
          \<longrightarrow> trace (snd (damon_pa_prepare_access_check pf r2
                              (snd (damon_pa_prepare_access_check pf r1 s))))
                = trace (snd (damon_pa_prepare_access_check pf r1 s))
              \<and> (trace (snd (damon_pa_prepare_access_check pf r1 s)) = trace s
                 \<or> trace (snd (damon_pa_prepare_access_check pf r1 s))
                     = trace s @ [Mkold (sampling_addr
                                           (fst (damon_pa_prepare_access_check pf r1 s)))]))"
proof -
  have inv: "mkold_inv s" using assms(1) by (rule reachable_mkold_inv)
  let ?s1 = "snd (damon_pa_prepare_access_check pf r1 s)"
  let ?p1 = "PHYS_PFN pf (sampling_addr (fst (damon_pa_prepare_access_check pf r1 s)))"
  have A: "trace (snd (damon_pa_prepare_access_check pf r s)) = trace s"
    if "damon_pa_cache_lookup pf s
          (PHYS_PFN pf (sampling_addr (fst (damon_pa_prepare_access_check pf r s)))) \<noteq> None"
  proof (rule prepare_hit_trace)
    show "mkold_cached pf (s\<lparr>rng := snd (damon_rand pf (rng s) (ar_start r) (ar_end r))\<rparr>)
            (PHYS_PFN pf (fst (damon_rand pf (rng s) (ar_start r) (ar_end r))))"
      using that inv assms(2) by (simp add: mkold_cached_iff prepare_sampling_addr)
  qed
  have B: "trace (snd (damon_pa_prepare_access_check pf r2 ?s1)) = trace ?s1"
    if eq: "PHYS_PFN pf (sampling_addr (fst (damon_pa_prepare_access_check pf r2 ?s1))) = ?p1"
  proof (rule prepare_hit_trace)
    have "mkold_cached pf ?s1 ?p1" using inv assms(2) by (rule prepare_cached_after)
    then show "mkold_cached pf
            (?s1\<lparr>rng := snd (damon_rand pf (rng ?s1) (ar_start r2) (ar_end r2))\<rparr>)
            (PHYS_PFN pf (fst (damon_rand pf (rng ?s1) (ar_start r2) (ar_end r2))))"
      using eq by (simp add: prepare_sampling_addr)
  qed
  from A B prepare_trace_cases [of pf r1 s] show ?thesis by blast
qed

text \<open>
  Claim C3, witness: region 1 prepared twice in a row in the first round; one call.
\<close>

theorem prepare_dedup_witness:
  "reachable pf4k (damon_pa_cache_round_begin (boot_state all_mapped 0))
   \<and> damon_pa_cache_gen (damon_pa_cache_round_begin (boot_state all_mapped 0)) \<noteq> 0
   \<and> PHYS_PFN pf4k (sampling_addr (fst (damon_pa_prepare_access_check pf4k region_1
        (snd (damon_pa_prepare_access_check pf4k region_1
               (damon_pa_cache_round_begin (boot_state all_mapped 0)))))))
       = PHYS_PFN pf4k (sampling_addr (fst (damon_pa_prepare_access_check pf4k region_1
               (damon_pa_cache_round_begin (boot_state all_mapped 0)))))
   \<and> trace (snd (damon_pa_prepare_access_check pf4k region_1
        (snd (damon_pa_prepare_access_check pf4k region_1
               (damon_pa_cache_round_begin (boot_state all_mapped 0))))))
       = trace (snd (damon_pa_prepare_access_check pf4k region_1
               (damon_pa_cache_round_begin (boot_state all_mapped 0))))
   \<and> trace (snd (damon_pa_prepare_access_check pf4k region_1
               (damon_pa_cache_round_begin (boot_state all_mapped 0)))) = [Mkold 0x1000]"
proof -
  let ?s = "damon_pa_cache_round_begin (boot_state all_mapped 0)"
  have r: "reachable pf4k ?s" by (intro reachable.round_begin reachable.boot)
  have g: "damon_pa_cache_gen ?s \<noteq> 0" by (rule round_begin_gen_nonzero)
  have e: "PHYS_PFN pf4k (sampling_addr (fst (damon_pa_prepare_access_check pf4k region_1
        (snd (damon_pa_prepare_access_check pf4k region_1 ?s)))))
       = PHYS_PFN pf4k (sampling_addr (fst (damon_pa_prepare_access_check pf4k region_1 ?s)))"
    by code_simp
  have t: "trace (snd (damon_pa_prepare_access_check pf4k region_1 ?s)) = [Mkold 0x1000]"
    by code_simp
  from prepare_dedup [OF r g, of region_1 region_1 region_1] e
  have "trace (snd (damon_pa_prepare_access_check pf4k region_1
        (snd (damon_pa_prepare_access_check pf4k region_1 ?s))))
       = trace (snd (damon_pa_prepare_access_check pf4k region_1 ?s))"
    by blast
  with r g e t show ?thesis by blast
qed

text \<open>
  Claim C2 fails on the code. The hot-test of frame 0x201 reports a huge mapping of 2 MiB,
  and frame 0x202 lies in the same unit (base frame 0x200), yet the check of the second
  region calls \<^verbatim>\<open>damon_pa_young\<close> again: the lookup is by the sample frame itself, and the
  result was stored under 0x201 and 0x200 only.
\<close>

theorem huge_unit_second_hot_test:
  "damon_pa_young pf4k huge_touched 0x201000 (PAGE_SIZE pf4k) = (True, 0x200000)
   \<and> map (PHYS_PFN pf4k \<circ> sampling_addr) (concat (fst huge_prepared)) = [0x201, 0x202]
   \<and> huge_base pf4k 0x201 0x200000 = 0x200
   \<and> huge_base pf4k 0x202 0x200000 = 0x200
   \<and> trace (snd (snd (damon_pa_check_accesses pf4k (fst huge_prepared) huge_touched)))
       = [Mkold 0x201000, Mkold 0x202000, Young 0x201000, Young 0x202000]"
  by code_simp

text \<open>
  Claim C2, witness: the second hot-test is among the calls of that round, for a frame of
  the unit whose result had just been cached.
\<close>

theorem huge_unit_second_hot_test_witness:
  "Young 0x202000
     \<in> set (trace (snd (snd (damon_pa_check_accesses pf4k (fst huge_prepared) huge_touched))))
   \<and> huge_base pf4k 0x202 0x200000 = huge_base pf4k 0x201 0x200000"
  using huge_unit_second_hot_test by simp

text \<open>
  Claim C4 fails on the code. After one round over one region two live entries hold
  frame 1: the prepare phase wrote slot 97, and the check phase, whose
  \<^verbatim>\<open>damon_pa_cache_get_slot\<close> looks for a stale slot only, wrote slot 98. The lookup keeps
  returning slot 97, whose \<open>page_sz\<close> is 0.
\<close>

theorem duplicate_live_entries:
  "trace one_round = [Mkold 0x1000, Young 0x1000]
   \<and> live one_round 97 \<and> pfn (damon_pa_cache one_round 97) = 1
   \<and> page_sz (damon_pa_cache one_round 97) = 0
   \<and> live one_round 98 \<and> pfn (damon_pa_cache one_round 98) = 1
   \<and> page_sz (damon_pa_cache one_round 98) = 4096
   \<and> damon_pa_cache_lookup pf4k one_round 1 = Some 97"
  by code_simp

text \<open>
  Claim C4, witness: the two slots are distinct live entries of the same frame number.
\<close>

theorem duplicate_live_entries_witness:
  "live one_round 97 \<and> live one_round 98
   \<and> pfn (damon_pa_cache one_round 97) = pfn (damon_pa_cache one_round 98)"
  using duplicate_live_entries by simp

text \<open>
  Claim C5 as stated fails. With the cache the round left, the check of the second region
  finds the entry of the prepare phase, calls the hot-test for frame 0x200 and counts
  nothing. With the cache invalidated before the check phase, the check of the first
  region stores its result under the base frame 0x200 as well, and the second region
  counts an access that the hot-test of its own frame does not report.
\<close>

theorem cache_not_transparent_counterexample:
  "cache_fresh (boot_state split_pages 0)
   \<and> map (map snd) split_wiped = fst split_prepared
   \<and> map nr_accesses
        (concat (fst (damon_pa_check_accesses pf4k (map (map snd) split_wiped) split_cached)))
       = [1, 0]
   \<and> map nr_accesses
        (concat (fst (check_accesses_invalidating pf4k split_wiped split_cached))) = [1, 1]
   \<and> \<not> huge_uniform pf4k split_pages (sampled_region 0x201)"
proof -
  have f: "cache_fresh (boot_state split_pages 0)"
    by (simp add: cache_fresh_def boot_state_def zero_ent_def damon_pa_cache_round_begin_def)
  have e: "map (map snd) split_wiped = fst split_prepared" by code_simp
  have 1: "map nr_accesses
        (concat (fst (damon_pa_check_accesses pf4k (map (map snd) split_wiped) split_cached)))
       = [1, 0]"
    by code_simp
  have 2: "map nr_accesses
        (concat (fst (check_accesses_invalidating pf4k split_wiped split_cached))) = [1, 1]"
    by code_simp
  have 3: "\<not> huge_uniform pf4k split_pages (sampled_region 0x201)" by code_simp
  show ?thesis using f e 1 2 3 by blast
qed

subsection \<open>Transparency of the cache\<close>

lemma damon_pa_young_frame:
  "damon_pa_young pf s a sz0 = young_of pf (pages s (PHYS_PFN pf a)) sz0"
  by (simp add: damon_pa_young_def young_of_def)

lemma damon_pa_mkold_pages:
  "pages (damon_pa_mkold pf a s)
     = (pages s)(PHYS_PFN pf a := mkold_of (pages s (PHYS_PFN pf a)))"
  by (cases "pages s (PHYS_PFN pf a)")
     (auto simp: damon_pa_mkold_def mkold_of_def Let_def case_prod_beta)

lemma mkold_entry_idem: "damon_mkold_entry (damon_mkold_entry e) = damon_mkold_entry e"
  by (cases e) (simp_all add: damon_mkold_entry_def)

lemma rmap_walk_mkold_eq:
  "rmap_walk_mkold pg vmas =
     (if \<exists>v\<in>set vmas. v \<noteq> [] then pg\<lparr>pg_idle := True\<rparr> else pg,
      map (map damon_mkold_entry) vmas)"
proof (induction vmas arbitrary: pg)
  case Nil
  show ?case by simp
next
  case (Cons v vmas)
  show ?case
    by (cases "v = []") (simp_all add: damon_pa_mkold_rmap_one_def Cons.IH)
qed

lemma mkold_of_idem: "mkold_of (mkold_of x) = mkold_of x"
proof (cases x)
  case None
  then show ?thesis by (simp add: mkold_of_def)
next
  case (Some pg)
  have e: "(\<exists>v\<in>set (map (map damon_mkold_entry) (pg_vmas pg)). v \<noteq> [])
             = (\<exists>v\<in>set (pg_vmas pg). v \<noteq> [])"
    by auto
  show ?thesis
    unfolding Some
    by (auto simp: mkold_of_def rmap_walk_mkold_eq e mkold_entry_idem comp_def)
qed

lemma invalidate_simps [simp]:
  "pages (invalidate_cache s) = pages s"
  "rng (invalidate_cache s) = rng s"
  "trace (invalidate_cache s) = trace s"
  "damon_pa_cache_gen (invalidate_cache s) = damon_pa_cache_gen s"
  by (simp_all add: invalidate_cache_def)

lemma invalidate_stale: "\<not> live (invalidate_cache s) i"
  by (simp add: invalidate_cache_def live_def)

lemma maybe_invalidate_simps [simp]:
  "pages (maybe_invalidate w s) = pages s"
  "rng (maybe_invalidate w s) = rng s"
  "damon_pa_cache_gen (maybe_invalidate w s) = damon_pa_cache_gen s"
  by (simp_all add: maybe_invalidate_def)

lemma check_sound_invalidate: "check_sound pf s \<Longrightarrow> check_sound pf (maybe_invalidate w s)"
  by (simp add: maybe_invalidate_def check_sound_def invalidate_stale)

lemma prepare_sound_invalidate: "prepare_sound s \<Longrightarrow> prepare_sound (maybe_invalidate w s)"
  by (simp add: maybe_invalidate_def prepare_sound_def invalidate_stale)

lemma unresolved_invalidate: "unresolved s \<Longrightarrow> unresolved (maybe_invalidate w s)"
  by (simp add: maybe_invalidate_def unresolved_def invalidate_stale)

lemma check_sound_store:
  assumes "check_sound pf s" and "sz \<noteq> 0 \<longrightarrow> acc = hot pf (pages s) p"
  shows "check_sound pf (cache_store pf p sz acc s)"
  using assms by (simp add: check_sound_def cache_store_def Let_def live_def)

lemma check_sound_log: "check_sound pf (log ev s) = check_sound pf s"
  by (simp add: check_sound_def live_def)

lemma young_cached_sound:
  assumes "check_sound pf s" and "young_cached pf s p = Some e"
  shows "accessed e = hot pf (pages s) p"
proof -
  obtain i where i: "damon_pa_cache_lookup pf s p = Some i"
      "e = damon_pa_cache s i" "page_sz (damon_pa_cache s i) \<noteq> 0"
    using assms(2) by (auto simp: young_cached_def split: option.splits if_splits)
  from lookup_Some [OF i(1)] have "live s i" "pfn (damon_pa_cache s i) = p"
      "i < unat DAMON_PA_CACHE_SIZE" by simp_all
  with assms(1) i show ?thesis by (simp add: check_sound_def)
qed

lemma check_step:
  assumes "check_sound pf s" and "huge_uniform pf (pages s) r"
  shows "fst (damon_pa_check_access pf r s)
           = count_access (hot pf (pages s) (PHYS_PFN pf (sampling_addr r))) r"
    and "check_sound pf (snd (damon_pa_check_access pf r s))"
    and "pages (snd (damon_pa_check_access pf r s)) = pages s"
proof -
  let ?p = "PHYS_PFN pf (sampling_addr r)"
  have "fst (damon_pa_check_access pf r s) = count_access (hot pf (pages s) ?p) r
        \<and> check_sound pf (snd (damon_pa_check_access pf r s))
        \<and> pages (snd (damon_pa_check_access pf r s)) = pages s"
  proof (cases "young_cached pf s ?p")
    case (Some e)
    then show ?thesis
      using assms(1) young_cached_sound [OF assms(1) Some] by (simp add: check_access_hit)
  next
    case None
    obtain acc sz where y: "damon_pa_young pf s (sampling_addr r) (PAGE_SIZE pf) = (acc, sz)"
      by (cases "damon_pa_young pf s (sampling_addr r) (PAGE_SIZE pf)")
    then have yo: "young_of pf (pages s ?p) (PAGE_SIZE pf) = (acc, sz)"
      by (simp add: damon_pa_young_frame)
    then have acc: "acc = hot pf (pages s) ?p" by (simp add: hot_def)
    let ?s1 = "cache_store pf ?p sz acc (log (Young (sampling_addr r)) s)"
    have s1: "check_sound pf ?s1"
      using assms(1) acc by (intro check_sound_store) (simp_all add: check_sound_log)
    have s2: "check_sound pf (cache_store pf (huge_base pf ?p sz) sz acc ?s1)"
      if "sz > PAGE_SIZE pf"
    proof (rule check_sound_store [OF s1])
      have "hot pf (pages s) (huge_base pf ?p sz) = acc"
        using assms(2) that yo by (simp add: huge_uniform_def Let_def)
      then show "sz \<noteq> 0 \<longrightarrow> acc = hot pf (pages ?s1) (huge_base pf ?p sz)" by simp
    qed
    show ?thesis
      using s1 s2 acc by (simp add: check_access_miss [OF None y])
  qed
  then show "fst (damon_pa_check_access pf r s)
           = count_access (hot pf (pages s) (PHYS_PFN pf (sampling_addr r))) r"
    and "check_sound pf (snd (damon_pa_check_access pf r s))"
    and "pages (snd (damon_pa_check_access pf r s)) = pages s"
    by simp_all
qed

lemma check_regions_transparent:
  assumes "check_sound pf s" and "check_sound pf t" and "pages t = pages s"
    and "\<forall>wr\<in>set wrs. huge_uniform pf (pages s) (snd wr)"
  shows "fst (check_regions_invalidating pf wrs m t) = fst (check_regions pf (map snd wrs) m s)
       \<and> fst (snd (check_regions_invalidating pf wrs m t))
           = fst (snd (check_regions pf (map snd wrs) m s))
       \<and> check_sound pf (snd (snd (check_regions_invalidating pf wrs m t)))
       \<and> check_sound pf (snd (snd (check_regions pf (map snd wrs) m s)))
       \<and> pages (snd (snd (check_regions_invalidating pf wrs m t))) = pages s
       \<and> pages (snd (snd (check_regions pf (map snd wrs) m s))) = pages s"
  using assms
proof (induction wrs arbitrary: m s t)
  case Nil
  then show ?case by simp
next
  case (Cons wr wrs)
  let ?t0 = "maybe_invalidate (fst wr) t"
  let ?r = "snd wr"
  have t0: "check_sound pf ?t0" using Cons.prems(2) by (rule check_sound_invalidate)
  have pt0: "pages ?t0 = pages s" using Cons.prems(3) by simp
  have u: "huge_uniform pf (pages s) ?r" using Cons.prems(4) by simp
  have ut: "huge_uniform pf (pages ?t0) ?r" using u pt0 by simp
  note ss = check_step [OF Cons.prems(1) u]
  note st = check_step [OF t0 ut]
  have eq: "fst (damon_pa_check_access pf ?r ?t0) = fst (damon_pa_check_access pf ?r s)"
    using ss(1) st(1) pt0 by simp
  let ?s1 = "snd (damon_pa_check_access pf ?r s)"
  let ?t1 = "snd (damon_pa_check_access pf ?r ?t0)"
  let ?m1 = "max (nr_accesses (fst (damon_pa_check_access pf ?r s))) m"
  have p1: "pages ?t1 = pages ?s1" using ss(3) st(3) pt0 by simp
  have u1: "\<forall>wr\<in>set wrs. huge_uniform pf (pages ?s1) (snd wr)"
    using Cons.prems(4) ss(3) by simp
  note IH = Cons.IH [OF ss(2) st(2) p1 u1, of ?m1]
  show ?case
    using IH eq ss(3) by (simp add: case_prod_beta Let_def)
qed

lemma check_targets_transparent:
  assumes "check_sound pf s" and "check_sound pf t" and "pages t = pages s"
    and "\<forall>wr\<in>set (concat wctx). huge_uniform pf (pages s) (snd wr)"
  shows "fst (check_targets_invalidating pf wctx m t)
           = fst (check_targets pf (map (map snd) wctx) m s)
       \<and> fst (snd (check_targets_invalidating pf wctx m t))
           = fst (snd (check_targets pf (map (map snd) wctx) m s))
       \<and> check_sound pf (snd (snd (check_targets_invalidating pf wctx m t)))
       \<and> check_sound pf (snd (snd (check_targets pf (map (map snd) wctx) m s)))
       \<and> pages (snd (snd (check_targets_invalidating pf wctx m t))) = pages s
       \<and> pages (snd (snd (check_targets pf (map (map snd) wctx) m s))) = pages s"
  using assms
proof (induction wctx arbitrary: m s t)
  case Nil
  then show ?case by simp
next
  case (Cons wt wctx)
  have u: "\<forall>wr\<in>set wt. huge_uniform pf (pages s) (snd wr)" using Cons.prems(4) by simp
  note R = check_regions_transparent [OF Cons.prems(1) Cons.prems(2) Cons.prems(3) u, of m]
  let ?s1 = "snd (snd (check_regions pf (map snd wt) m s))"
  let ?t1 = "snd (snd (check_regions_invalidating pf wt m t))"
  let ?m1 = "fst (snd (check_regions pf (map snd wt) m s))"
  have s1: "check_sound pf ?s1" and t1: "check_sound pf ?t1" using R by simp_all
  have p1: "pages ?t1 = pages ?s1" using R by simp
  have ps: "pages ?s1 = pages s" using R by simp
  have u1: "\<forall>wr\<in>set (concat wctx). huge_uniform pf (pages ?s1) (snd wr)"
    using Cons.prems(4) ps by simp
  note IH = Cons.IH [OF s1 t1 p1 u1, of ?m1]
  show ?case
    using IH R ps by (simp add: case_prod_beta Let_def)
qed

lemma prepare_sound_rng [simp]: "prepare_sound (s\<lparr>rng := g\<rparr>) = prepare_sound s"
  by (simp add: prepare_sound_def live_def)

lemma prepare_sound_mkold:
  assumes "prepare_sound s" and "pages u = (pages s)(p := mkold_of (pages s p))"
    and "damon_pa_cache u = damon_pa_cache s" and "damon_pa_cache_gen u = damon_pa_cache_gen s"
  shows "prepare_sound u"
  using assms by (simp add: prepare_sound_def live_def mkold_of_idem)

lemma prepare_sound_store:
  assumes "prepare_sound u" and "mkold_of (pages u p) = pages u p"
  shows "prepare_sound (cache_store pf p sz acc u)"
  using assms by (simp add: prepare_sound_def cache_store_def Let_def live_def)

lemma mkold_cached_sound:
  assumes "prepare_sound s" and "mkold_cached pf s p"
  shows "mkold_of (pages s p) = pages s p"
proof -
  obtain i where i: "damon_pa_cache_lookup pf s p = Some i" "mkold_done (damon_pa_cache s i)"
    using assms(2) by (auto simp: mkold_cached_def split: option.splits)
  from lookup_Some [OF i(1)] have "live s i" "pfn (damon_pa_cache s i) = p"
      "i < unat DAMON_PA_CACHE_SIZE" by simp_all
  with assms(1) i(2) show ?thesis by (auto simp: prepare_sound_def)
qed

lemma prepare_step:
  assumes "prepare_sound s"
  shows "fst (damon_pa_prepare_access_check pf r s)
           = r\<lparr>sampling_addr := fst (damon_rand pf (rng s) (ar_start r) (ar_end r))\<rparr>"
    and "rng (snd (damon_pa_prepare_access_check pf r s))
           = snd (damon_rand pf (rng s) (ar_start r) (ar_end r))"
    and "pages (snd (damon_pa_prepare_access_check pf r s))
           = (pages s)(PHYS_PFN pf (fst (damon_rand pf (rng s) (ar_start r) (ar_end r)))
                := mkold_of (pages s
                     (PHYS_PFN pf (fst (damon_rand pf (rng s) (ar_start r) (ar_end r))))))"
    and "prepare_sound (snd (damon_pa_prepare_access_check pf r s))"
proof -
  obtain a g where ag: "damon_rand pf (rng s) (ar_start r) (ar_end r) = (a, g)"
    by (cases "damon_rand pf (rng s) (ar_start r) (ar_end r)")
  let ?p = "PHYS_PFN pf a"
  have "fst (damon_pa_prepare_access_check pf r s) = r\<lparr>sampling_addr := a\<rparr>
      \<and> rng (snd (damon_pa_prepare_access_check pf r s)) = g
      \<and> pages (snd (damon_pa_prepare_access_check pf r s))
           = (pages s)(?p := mkold_of (pages s ?p))
      \<and> prepare_sound (snd (damon_pa_prepare_access_check pf r s))"
  proof (cases "mkold_cached pf (s\<lparr>rng := g\<rparr>) ?p")
    case True
    then have "mkold_of (pages s ?p) = pages s ?p"
      using mkold_cached_sound [of "s\<lparr>rng := g\<rparr>" pf ?p] assms by simp
    then have "(pages s)(?p := mkold_of (pages s ?p)) = pages s" by simp
    then show ?thesis
      using True assms by (simp add: damon_pa_prepare_access_check_def ag Let_def)
  next
    case False
    let ?u = "damon_pa_mkold pf a (log (Mkold a) (s\<lparr>rng := g\<rparr>))"
    have pu: "pages ?u = (pages s)(?p := mkold_of (pages s ?p))"
      by (simp add: damon_pa_mkold_pages)
    have u: "prepare_sound ?u"
      using assms pu by (rule prepare_sound_mkold) simp_all
    have "mkold_of (pages ?u ?p) = pages ?u ?p"
      by (simp only: pu) (simp add: mkold_of_idem)
    with u have "prepare_sound (cache_store pf ?p 0 False ?u)"
      by (rule prepare_sound_store)
    then show ?thesis
      using False pu by (simp add: damon_pa_prepare_access_check_def ag Let_def)
  qed
  then show "fst (damon_pa_prepare_access_check pf r s)
           = r\<lparr>sampling_addr := fst (damon_rand pf (rng s) (ar_start r) (ar_end r))\<rparr>"
    and "rng (snd (damon_pa_prepare_access_check pf r s))
           = snd (damon_rand pf (rng s) (ar_start r) (ar_end r))"
    and "pages (snd (damon_pa_prepare_access_check pf r s))
           = (pages s)(PHYS_PFN pf (fst (damon_rand pf (rng s) (ar_start r) (ar_end r)))
                := mkold_of (pages s
                     (PHYS_PFN pf (fst (damon_rand pf (rng s) (ar_start r) (ar_end r))))))"
    and "prepare_sound (snd (damon_pa_prepare_access_check pf r s))"
    by (simp_all add: ag)
qed

lemma prepare_regions_transparent:
  assumes "prepare_sound s" and "prepare_sound t" and "pages t = pages s" and "rng t = rng s"
  shows "fst (prepare_regions_invalidating pf wrs t) = fst (prepare_regions pf (map snd wrs) s)
       \<and> pages (snd (prepare_regions_invalidating pf wrs t))
           = pages (snd (prepare_regions pf (map snd wrs) s))
       \<and> rng (snd (prepare_regions_invalidating pf wrs t))
           = rng (snd (prepare_regions pf (map snd wrs) s))
       \<and> prepare_sound (snd (prepare_regions_invalidating pf wrs t))
       \<and> prepare_sound (snd (prepare_regions pf (map snd wrs) s))"
  using assms
proof (induction wrs arbitrary: s t)
  case Nil
  then show ?case by simp
next
  case (Cons wr wrs)
  let ?t0 = "maybe_invalidate (fst wr) t"
  let ?r = "snd wr"
  have t0: "prepare_sound ?t0" using Cons.prems(2) by (rule prepare_sound_invalidate)
  note ss = prepare_step [OF Cons.prems(1), of pf ?r]
  note st = prepare_step [OF t0, of pf ?r]
  have e: "fst (damon_pa_prepare_access_check pf ?r ?t0)
             = fst (damon_pa_prepare_access_check pf ?r s)"
    using ss(1) st(1) Cons.prems(4) by simp
  have p: "pages (snd (damon_pa_prepare_access_check pf ?r ?t0))
             = pages (snd (damon_pa_prepare_access_check pf ?r s))"
    using ss(3) st(3) Cons.prems(3) Cons.prems(4) by simp
  have g: "rng (snd (damon_pa_prepare_access_check pf ?r ?t0))
             = rng (snd (damon_pa_prepare_access_check pf ?r s))"
    using ss(2) st(2) Cons.prems(4) by simp
  note IH = Cons.IH [OF ss(4) st(4) p g]
  show ?case using IH e by (simp add: case_prod_beta Let_def)
qed

lemma prepare_targets_transparent:
  assumes "prepare_sound s" and "prepare_sound t" and "pages t = pages s" and "rng t = rng s"
  shows "fst (prepare_targets_invalidating pf wctx t) = fst (prepare_targets pf (map (map snd) wctx) s)
       \<and> pages (snd (prepare_targets_invalidating pf wctx t))
           = pages (snd (prepare_targets pf (map (map snd) wctx) s))
       \<and> rng (snd (prepare_targets_invalidating pf wctx t))
           = rng (snd (prepare_targets pf (map (map snd) wctx) s))
       \<and> prepare_sound (snd (prepare_targets_invalidating pf wctx t))
       \<and> prepare_sound (snd (prepare_targets pf (map (map snd) wctx) s))"
  using assms
proof (induction wctx arbitrary: s t)
  case Nil
  then show ?case by simp
next
  case (Cons wt wctx)
  note R = prepare_regions_transparent [OF Cons.prems, of pf wt]
  have 1: "prepare_sound (snd (prepare_regions pf (map snd wt) s))" using R by simp
  have 2: "prepare_sound (snd (prepare_regions_invalidating pf wt t))" using R by simp
  have 3: "pages (snd (prepare_regions_invalidating pf wt t))
             = pages (snd (prepare_regions pf (map snd wt) s))" using R by simp
  have 4: "rng (snd (prepare_regions_invalidating pf wt t))
             = rng (snd (prepare_regions pf (map snd wt) s))" using R by simp
  note IH = Cons.IH [OF 1 2 3 4]
  show ?case using IH R by (simp add: case_prod_beta Let_def)
qed

lemma unresolved_store: "unresolved s \<Longrightarrow> unresolved (cache_store pf p 0 acc s)"
  by (simp add: unresolved_def cache_store_def Let_def live_def)

lemma unresolved_cong:
  "damon_pa_cache u = damon_pa_cache s \<Longrightarrow> damon_pa_cache_gen u = damon_pa_cache_gen s
     \<Longrightarrow> unresolved u = unresolved s"
  by (simp add: unresolved_def live_def)

lemma unresolved_prepare:
  assumes "unresolved s"
  shows "unresolved (snd (damon_pa_prepare_access_check pf r s))"
proof -
  obtain a g where ag: "damon_rand pf (rng s) (ar_start r) (ar_end r) = (a, g)"
    by (cases "damon_rand pf (rng s) (ar_start r) (ar_end r)")
  have 1: "unresolved (s\<lparr>rng := g\<rparr>)" using assms by (simp add: unresolved_def live_def)
  have "unresolved (damon_pa_mkold pf a (log (Mkold a) (s\<lparr>rng := g\<rparr>)))"
    using assms by (simp add: unresolved_def live_def)
  then have 2: "unresolved (cache_store pf (PHYS_PFN pf a) 0 False
                  (damon_pa_mkold pf a (log (Mkold a) (s\<lparr>rng := g\<rparr>))))"
    by (rule unresolved_store)
  show ?thesis
    using 1 2 by (simp add: damon_pa_prepare_access_check_def ag Let_def)
qed

lemma unresolved_prepare_regions:
  "unresolved s \<Longrightarrow> unresolved (snd (prepare_regions pf rs s))"
  by (induction rs arbitrary: s) (simp_all add: case_prod_beta Let_def unresolved_prepare)

lemma unresolved_prepare_targets:
  "unresolved s \<Longrightarrow> unresolved (snd (prepare_targets pf ts s))"
  by (induction ts arbitrary: s) (simp_all add: case_prod_beta Let_def unresolved_prepare_regions)

lemma unresolved_prepare_regions_inv:
  "unresolved s \<Longrightarrow> unresolved (snd (prepare_regions_invalidating pf wrs s))"
  by (induction wrs arbitrary: s)
     (simp_all add: case_prod_beta Let_def unresolved_prepare unresolved_invalidate)

lemma unresolved_prepare_targets_inv:
  "unresolved s \<Longrightarrow> unresolved (snd (prepare_targets_invalidating pf wctx s))"
  by (induction wctx arbitrary: s)
     (simp_all add: case_prod_beta Let_def unresolved_prepare_regions_inv)

lemma unresolved_check_sound: "unresolved s \<Longrightarrow> check_sound pf (s\<lparr>pages := m\<rparr>)"
  by (auto simp: unresolved_def check_sound_def live_def)

lemma round_begin_simps [simp]:
  "damon_pa_cache (damon_pa_cache_round_begin s) = damon_pa_cache s"
  "pages (damon_pa_cache_round_begin s) = pages s"
  "rng (damon_pa_cache_round_begin s) = rng s"
  "trace (damon_pa_cache_round_begin s) = trace s"
  by (simp_all add: damon_pa_cache_round_begin_def Let_def)

lemma fresh_round_begin:
  assumes "cache_fresh s"
  shows "prepare_sound (damon_pa_cache_round_begin s)"
    and "unresolved (damon_pa_cache_round_begin s)"
  using assms
  by (auto simp: cache_fresh_def prepare_sound_def unresolved_def live_def)

text \<open>
  Claim C5, as amended. Take a round that starts with no slot carrying its generation,
  and a memory at check time in which every hot-test of a sample frame that reports a huge
  mapping agrees with the hot-test of the base frame of the unit. Then running
  \<^verbatim>\<open>damon_pa_prepare_access_checks\<close> and \<^verbatim>\<open>damon_pa_check_accesses\<close> with the cache invalidated
  before any of the regions leaves the same regions (\<open>sampling_addr\<close>, \<open>nr_accesses\<close>) and
  the same memory after the prepare phase, and returns the same value, as running them
  with the cache.
\<close>

theorem cache_transparent:
  assumes "cache_fresh s"
    and "map (map snd) wctx2 = fst (damon_pa_prepare_access_checks pf (map (map snd) wctx1) s)"
    and "\<forall>wr\<in>set (concat wctx2). huge_uniform pf m (snd wr)"
  shows "fst (prepare_access_checks_invalidating pf wctx1 s)
           = fst (damon_pa_prepare_access_checks pf (map (map snd) wctx1) s)
       \<and> pages (snd (prepare_access_checks_invalidating pf wctx1 s))
           = pages (snd (damon_pa_prepare_access_checks pf (map (map snd) wctx1) s))
       \<and> fst (check_accesses_invalidating pf wctx2
                ((snd (prepare_access_checks_invalidating pf wctx1 s))\<lparr>pages := m\<rparr>))
           = fst (damon_pa_check_accesses pf (map (map snd) wctx2)
                ((snd (damon_pa_prepare_access_checks pf (map (map snd) wctx1) s))\<lparr>pages := m\<rparr>))
       \<and> fst (snd (check_accesses_invalidating pf wctx2
                ((snd (prepare_access_checks_invalidating pf wctx1 s))\<lparr>pages := m\<rparr>)))
           = fst (snd (damon_pa_check_accesses pf (map (map snd) wctx2)
                ((snd (damon_pa_prepare_access_checks pf (map (map snd) wctx1) s))\<lparr>pages := m\<rparr>)))"
proof -
  let ?b = "damon_pa_cache_round_begin s"
  let ?P = "prepare_targets pf (map (map snd) wctx1) ?b"
  let ?Q = "prepare_targets_invalidating pf wctx1 ?b"
  note f = fresh_round_begin [OF assms(1)]
  note T = prepare_targets_transparent [OF f(1) f(1) refl refl, of pf wctx1]
  have cs: "check_sound pf ((snd ?P)\<lparr>pages := m\<rparr>)"
    using f(2) by (intro unresolved_check_sound unresolved_prepare_targets)
  have ct: "check_sound pf ((snd ?Q)\<lparr>pages := m\<rparr>)"
    using f(2) by (intro unresolved_check_sound unresolved_prepare_targets_inv)
  have u: "\<forall>wr\<in>set (concat wctx2). huge_uniform pf (pages ((snd ?P)\<lparr>pages := m\<rparr>)) (snd wr)"
    using assms(3) by simp
  have p: "pages ((snd ?Q)\<lparr>pages := m\<rparr>) = pages ((snd ?P)\<lparr>pages := m\<rparr>)" by simp
  note C = check_targets_transparent [OF cs ct p u, of 0]
  show ?thesis
    using T C
    by (simp add: damon_pa_prepare_access_checks_def prepare_access_checks_invalidating_def
          damon_pa_check_accesses_def check_accesses_invalidating_def)
qed

text \<open>
  Claim C5, witness: two frames of one uniformly young huge unit; with the invalidations
  both regions count one access and the maximum is 1, as without.
\<close>

theorem cache_transparent_witness:
  "cache_fresh (boot_state uniform_pages 0)
   \<and> map (map snd) wiped_check
       = fst (damon_pa_prepare_access_checks pf4k (map (map snd) wiped_prepare)
                (boot_state uniform_pages 0))
   \<and> list_all (\<lambda>wr. huge_uniform pf4k uniform_pages (snd wr)) (concat wiped_check)
   \<and> map nr_accesses (concat (fst (check_accesses_invalidating pf4k wiped_check
        ((snd (prepare_access_checks_invalidating pf4k wiped_prepare
                 (boot_state uniform_pages 0)))\<lparr>pages := uniform_pages\<rparr>)))) = [1, 1]
   \<and> fst (snd (check_accesses_invalidating pf4k wiped_check
        ((snd (prepare_access_checks_invalidating pf4k wiped_prepare
                 (boot_state uniform_pages 0)))\<lparr>pages := uniform_pages\<rparr>))) = 1"
proof -
  have f: "cache_fresh (boot_state uniform_pages 0)"
    by (simp add: cache_fresh_def boot_state_def zero_ent_def damon_pa_cache_round_begin_def)
  have e: "map (map snd) wiped_check
       = fst (damon_pa_prepare_access_checks pf4k (map (map snd) wiped_prepare)
                (boot_state uniform_pages 0))"
    by code_simp
  have u: "list_all (\<lambda>wr. huge_uniform pf4k uniform_pages (snd wr)) (concat wiped_check)"
    by code_simp
  then have u': "\<forall>wr\<in>set (concat wiped_check). huge_uniform pf4k uniform_pages (snd wr)"
    by (simp only: list_all_iff)
  have n: "map nr_accesses (concat (fst (damon_pa_check_accesses pf4k (map (map snd) wiped_check)
        ((snd (damon_pa_prepare_access_checks pf4k (map (map snd) wiped_prepare)
                 (boot_state uniform_pages 0)))\<lparr>pages := uniform_pages\<rparr>)))) = [1, 1]"
    by code_simp
  have r: "fst (snd (damon_pa_check_accesses pf4k (map (map snd) wiped_check)
        ((snd (damon_pa_prepare_access_checks pf4k (map (map snd) wiped_prepare)
                 (boot_state uniform_pages 0)))\<lparr>pages := uniform_pages\<rparr>))) = 1"
    by code_simp
  note t = cache_transparent [OF f e u']
  have n': "map nr_accesses (concat (fst (check_accesses_invalidating pf4k wiped_check
        ((snd (prepare_access_checks_invalidating pf4k wiped_prepare
                 (boot_state uniform_pages 0)))\<lparr>pages := uniform_pages\<rparr>)))) = [1, 1]"
    using t n by (simp only:)
  have r': "fst (snd (check_accesses_invalidating pf4k wiped_check
        ((snd (prepare_access_checks_invalidating pf4k wiped_prepare
                 (boot_state uniform_pages 0)))\<lparr>pages := uniform_pages\<rparr>))) = 1"
    using t r by (simp only:)
  show ?thesis using f e u n' r' by blast
qed

subsection \<open>The scan that does not end\<close>

lemma aligned_below_top: "(4096 :: ulong) * k < - 1"
proof -
  have "even ((4096 :: ulong) * k)" by simp
  then have "(4096 :: ulong) * k \<noteq> - 1" by (metis even_minus odd_one)
  then show ?thesis by (simp add: word_order.not_eq_extremum)
qed

lemma pageout_scan_no_result:
  assumes "pageout_scan pf addr e st = Some y"
  shows "\<not> (pf = pf4k \<and> e = - 1 \<and> (\<exists>k. addr = 4096 * k))"
proof (rule pageout_scan.raw_induct
    [where P = "\<lambda>pf addr e st y. \<not> (pf = pf4k \<and> e = - 1 \<and> (\<exists>k. addr = 4096 * k))",
     OF _ assms])
  fix scan pf addr e st y
  assume IH: "\<And>pf addr e st y. scan pf addr e st = Some y \<Longrightarrow>
      \<not> (pf = pf4k \<and> e = - 1 \<and> (\<exists>k. addr = 4096 * k))"
    and eq: "(if addr < e then scan pf (addr + PAGE_SIZE pf) e (scan_page pf addr st)
              else Some st) = Some y"
  show "\<not> (pf = pf4k \<and> e = - 1 \<and> (\<exists>k. addr = 4096 * k))"
  proof
    assume a: "pf = pf4k \<and> e = - 1 \<and> (\<exists>k. addr = 4096 * k)"
    then obtain k where k: "addr = 4096 * k" by blast
    have lt: "addr < e" using a k by (simp add: aligned_below_top)
    have nx: "addr + PAGE_SIZE pf = 4096 * (k + 1)"
      using a k by (simp add: PAGE_SIZE_def pf4k_def algebra_simps)
    from eq lt have "scan pf (addr + PAGE_SIZE pf) e (scan_page pf addr st) = Some y" by simp
    from IH [OF this] a nx show False by blast
  qed
qed

lemma pageout_scan_diverges:
  "pageout_scan pf4k (4096 * k) (- 1) st = None"
proof (cases "pageout_scan pf4k (4096 * k) (- 1) st")
  case None
  then show ?thesis .
next
  case (Some y)
  from pageout_scan_no_result [OF this] show ?thesis by blast
qed

text \<open>
  Claim C9 as stated fails for a region that ends within the last page of the address
  space: the scan address, a multiple of the page size, stays below the end for ever (it
  wraps to 0 after the last page), and the pageout call never returns.
\<close>

theorem apply_scheme_never_returns:
  "action pageout = DAMOS_PAGEOUT
   \<and> damon_pa_apply_scheme pf4k region_top pageout (boot_state no_pages 0) = None"
  using pageout_scan_diverges [of 0 "([], boot_state no_pages 0)"]
  by (simp add: damon_pa_apply_scheme_def region_top_def pageout_def)

subsection \<open>The round cache until the counter wraps\<close>

text \<open>The bound on the slot generations holds at boot and is kept by every write.\<close>

lemma gens_bounded_boot: "gens_bounded (boot_state pgs seed)"
  by (simp add: gens_bounded_def boot_state_def zero_ent_def)

lemma gens_bounded_cache_store: "gens_bounded s \<Longrightarrow> gens_bounded (cache_store pf p sz acc s)"
  by (simp add: gens_bounded_def cache_store_def Let_def)

lemma gens_bounded_cong:
  "damon_pa_cache s' = damon_pa_cache s \<Longrightarrow> damon_pa_cache_gen s' = damon_pa_cache_gen s
     \<Longrightarrow> gens_bounded s' = gens_bounded s"
  by (simp add: gens_bounded_def)

lemma gens_bounded_prepare:
  assumes "gens_bounded s"
  shows "gens_bounded (snd (damon_pa_prepare_access_check pf r s))"
proof -
  obtain a g where ag: "damon_rand pf (rng s) (ar_start r) (ar_end r) = (a, g)"
    by (cases "damon_rand pf (rng s) (ar_start r) (ar_end r)")
  have 1: "gens_bounded (s\<lparr>rng := g\<rparr>)" using assms by (simp add: gens_bounded_def)
  have 2: "gens_bounded (damon_pa_mkold pf a (log (Mkold a) (s\<lparr>rng := g\<rparr>)))"
    using assms by (simp add: gens_bounded_def)
  show ?thesis
    using 1 2 by (simp add: damon_pa_prepare_access_check_def ag Let_def gens_bounded_cache_store)
qed

lemma gens_bounded_check:
  assumes "gens_bounded s"
  shows "gens_bounded (snd (damon_pa_check_access pf r s))"
proof (cases "young_cached pf s (PHYS_PFN pf (sampling_addr r))")
  case (Some e)
  then show ?thesis using assms by (simp add: check_access_hit)
next
  case None
  obtain acc sz where y: "damon_pa_young pf s (sampling_addr r) (PAGE_SIZE pf) = (acc, sz)"
    by (cases "damon_pa_young pf s (sampling_addr r) (PAGE_SIZE pf)")
  have "gens_bounded (log (Young (sampling_addr r)) s)"
    using assms by (simp add: gens_bounded_def)
  then show ?thesis
    by (simp add: check_access_miss [OF None y] gens_bounded_cache_store)
qed

text \<open>Below \<open>2 ^ 64\<close> calls the counter equals the number of calls made since boot.\<close>

lemma unat_ulong_of_nat: "n < 2 ^ 64 \<Longrightarrow> unat (of_nat n :: ulong) = n"
  by (rule of_nat_inverse [OF refl]) simp

lemma round_begin_gen_of_nat:
  assumes "damon_pa_cache_gen s = of_nat n" and "Suc n < 2 ^ 64"
  shows "damon_pa_cache_gen (damon_pa_cache_round_begin s) = of_nat (Suc n)"
proof -
  have "unat (of_nat (Suc n) :: ulong) = Suc n"
    using assms(2) by (rule unat_ulong_of_nat)
  then have "(of_nat (Suc n) :: ulong) \<noteq> 0" by (metis unat_0 nat.distinct(1))
  moreover have "damon_pa_cache_gen s + 1 = of_nat (Suc n)" using assms(1) by simp
  ultimately show ?thesis by (simp add: damon_pa_cache_round_begin_def Let_def del: of_nat_Suc)
qed

lemma after_rounds_gens:
  "after_rounds pf n s \<Longrightarrow> n < 2 ^ 64
     \<Longrightarrow> damon_pa_cache_gen s = of_nat n \<and> gens_bounded s"
proof (induction rule: after_rounds.induct)
  case (boot pgs seed)
  show ?case by (simp add: gens_bounded_boot) (simp add: boot_state_def)
next
  case (round_begin n s)
  then have g: "damon_pa_cache_gen s = of_nat n" and b: "gens_bounded s" by simp_all
  have g': "damon_pa_cache_gen (damon_pa_cache_round_begin s) = of_nat (Suc n)"
    using g round_begin.prems by (rule round_begin_gen_of_nat)
  have "n < 2 ^ 64" using round_begin.prems by simp
  then have "(of_nat n :: ulong) \<le> of_nat (Suc n)"
    unfolding word_le_nat_alt
    by (simp only: unat_ulong_of_nat [OF round_begin.prems] unat_ulong_of_nat)
  then have "gens_bounded (damon_pa_cache_round_begin s)"
    using b g g' by (auto simp: gens_bounded_def damon_pa_cache_round_begin_def Let_def
        simp del: of_nat_Suc)
  with g' show ?case by simp
next
  case (prepare n s r)
  then show ?case by (simp add: gens_bounded_prepare)
next
  case (check n s r)
  then have g: "damon_pa_cache_gen s = of_nat n" and b: "gens_bounded s" by simp_all
  have "damon_pa_cache_gen (snd (damon_pa_check_access pf r s)) = damon_pa_cache_gen s"
  proof (cases "young_cached pf s (PHYS_PFN pf (sampling_addr r))")
    case (Some e)
    then show ?thesis by (simp add: check_access_hit)
  next
    case None
    obtain acc sz where y: "damon_pa_young pf s (sampling_addr r) (PAGE_SIZE pf) = (acc, sz)"
      by (cases "damon_pa_young pf s (sampling_addr r) (PAGE_SIZE pf)")
    show ?thesis by (simp add: check_access_miss [OF None y])
  qed
  with g b show ?case by (simp add: gens_bounded_check)
next
  case (apply_scheme n s r sch m s')
  then have g: "damon_pa_cache_gen s = of_nat n" and b: "gens_bounded s" by simp_all
  have c: "damon_pa_cache s' = damon_pa_cache s" "damon_pa_cache_gen s' = damon_pa_cache_gen s"
    using apply_scheme_cache [OF apply_scheme.hyps(2)] by simp_all
  show ?case using g b c by (simp add: gens_bounded_cong [OF c])
next
  case (touch n s pgs)
  then have g: "damon_pa_cache_gen s = of_nat n" and b: "gens_bounded s" by simp_all
  have "gens_bounded (s\<lparr>pages := pgs\<rparr>) = gens_bounded s" by (rule gens_bounded_cong) simp_all
  with g b show ?case by simp
qed

text \<open>
  So until the counter wraps no slot carries the generation that the next
  \<^verbatim>\<open>damon_pa_cache_round_begin\<close> makes current.
\<close>

lemma after_rounds_fresh:
  assumes "after_rounds pf n s" and "n < 2 ^ 64 - 1"
  shows "cache_fresh s"
proof -
  have n: "n < 2 ^ 64" "Suc n < 2 ^ 64" using assms(2) by simp_all
  have g: "damon_pa_cache_gen s = of_nat n" and b: "gens_bounded s"
    using after_rounds_gens [OF assms(1) n(1)] by simp_all
  have g': "damon_pa_cache_gen (damon_pa_cache_round_begin s) = of_nat (Suc n)"
    using g n(2) by (rule round_begin_gen_of_nat)
  have lt: "(of_nat n :: ulong) < of_nat (Suc n)"
    unfolding word_less_nat_alt
    by (simp only: unat_ulong_of_nat [OF n(1)] unat_ulong_of_nat [OF n(2)])
  show ?thesis
    unfolding cache_fresh_def g'
  proof (intro allI impI)
    fix i assume "i < unat DAMON_PA_CACHE_SIZE"
    with b g have "gen (damon_pa_cache s i) \<le> of_nat n" by (simp add: gens_bounded_def)
    with lt show "gen (damon_pa_cache s i) \<noteq> of_nat (Suc n)" by auto
  qed
qed

lemma store_all_gen:
  "damon_pa_cache_gen (store_all pf ws s) = damon_pa_cache_gen s"
  unfolding store_all_def by (induction ws arbitrary: s rule: rev_induct) (auto)

text \<open>
  The state after the first round is reached with one call; the state in which the lookup
  of frame 1 finds the old entry again is reached with 18446744073709551615 calls, the
  first number of calls that the theorem below leaves out.
\<close>

lemma round1_prepared: "round1_state = prepared_state"
  by (simp add: round1_state_def prepared_state_def damon_pa_prepare_access_checks_def
      Let_def case_prod_beta)

lemma round1_after_rounds: "after_rounds pf4k 1 round1_state"
  unfolding round1_prepared prepared_state_def One_nat_def
  by (intro after_rounds.prepare after_rounds.round_begin after_rounds.boot)

lemma after_rounds_funpow:
  "after_rounds pf n s \<Longrightarrow> after_rounds pf (n + k) ((damon_pa_cache_round_begin ^^ k) s)"
  by (induction k) (simp_all add: after_rounds.round_begin)

lemma wrap_state_after_rounds:
  "after_rounds pf4k 18446744073709551615
     ((damon_pa_cache_round_begin ^^ 18446744073709551614) round1_state)"
  using after_rounds_funpow [OF round1_after_rounds, of 18446744073709551614] by simp

text \<open>
  Claim C6, as amended. In every state reached from boot by the operations of the file
  with fewer than \<open>2 ^ 64 - 1\<close> calls of \<^verbatim>\<open>damon_pa_cache_round_begin\<close>, the lookup of every
  frame number \<open>F\<close> right after the next \<^verbatim>\<open>damon_pa_cache_round_begin\<close> finds nothing, and
  it keeps finding nothing while entries are claimed and written for other frame numbers
  only. In every state whatsoever the generation after \<^verbatim>\<open>damon_pa_cache_round_begin\<close>
  is not 0.
\<close>

theorem round_begin_lookup_none:
  "(after_rounds pf n s \<and> n < 2 ^ 64 - 1 \<and> (\<forall>w\<in>set ws. fst w \<noteq> F) \<longrightarrow>
      damon_pa_cache_lookup pf (store_all pf ws (damon_pa_cache_round_begin s)) F = None)
   \<and> damon_pa_cache_gen (store_all pf ws (damon_pa_cache_round_begin s)) \<noteq> 0"
proof (intro conjI impI)
  assume a: "after_rounds pf n s \<and> n < 2 ^ 64 - 1 \<and> (\<forall>w\<in>set ws. fst w \<noteq> F)"
  then have "cache_fresh s" by (blast intro: after_rounds_fresh)
  then have "no_live_for (store_all pf ws (damon_pa_cache_round_begin s)) F"
    using a by (simp add: fresh_no_live store_all_no_live)
  then show "damon_pa_cache_lookup pf (store_all pf ws (damon_pa_cache_round_begin s)) F = None"
    by (rule no_live_lookup_None)
next
  show "damon_pa_cache_gen (store_all pf ws (damon_pa_cache_round_begin s)) \<noteq> 0"
    by (simp add: store_all_gen round_begin_gen_nonzero)
qed

text \<open>
  Claim C6, witness: the state after the first round, where the lookup of frame 1 finds
  slot 97. After the next \<^verbatim>\<open>damon_pa_cache_round_begin\<close> and a write for frame 2 it finds
  nothing.
\<close>

theorem round_begin_lookup_none_witness:
  "after_rounds pf4k 1 round1_state
   \<and> damon_pa_cache_lookup pf4k round1_state 1 = Some 97
   \<and> damon_pa_cache_lookup pf4k
        (store_all pf4k [(2, 4096, True)] (damon_pa_cache_round_begin round1_state)) 1 = None
   \<and> damon_pa_cache_gen
        (store_all pf4k [(2, 4096, True)] (damon_pa_cache_round_begin round1_state)) \<noteq> 0"
proof -
  have r: "after_rounds pf4k 1 round1_state" by (rule round1_after_rounds)
  have h: "after_rounds pf4k 1 round1_state \<and> (1 :: nat) < 2 ^ 64 - 1
      \<and> (\<forall>w\<in>set [(2 :: ulong, 4096 :: ulong, True)]. fst w \<noteq> (1 :: ulong))"
    using r by simp
  have l: "damon_pa_cache_lookup pf4k round1_state 1 = Some 97" by code_simp
  note t = round_begin_lookup_none [of pf4k 1 round1_state "[(2, 4096, True)]" 1]
  from t h have 1: "damon_pa_cache_lookup pf4k
        (store_all pf4k [(2, 4096, True)] (damon_pa_cache_round_begin round1_state)) 1 = None"
    by blast
  from t have 2: "damon_pa_cache_gen
        (store_all pf4k [(2, 4096, True)] (damon_pa_cache_round_begin round1_state)) \<noteq> 0"
    by blast
  from r l 1 2 show ?thesis by blast
qed

end
